theory Spec2Isabelle
  imports Main "HOL-Library.AList"
begin

section \<open>JavaScript values\<close>

text \<open>
  The library moves values from a server render to the browser as JSON text. Two value
  types are used. \<open>json\<close> is what \<open>JSON.parse\<close> returns. \<open>jsval\<close> is what a caller
  may hand to a Provider and what a hook may return: it adds \<open>undefined\<close>, functions,
  symbols and \<open>VCyclic\<close>, an object that reaches itself through its own properties and
  has no method \<open>toJSON\<close>, so that \<open>JSON.stringify\<close> throws on it.

  A number \<open>n\<close> stands for the Number with the integer value \<open>n\<close>. Only the safe
  integers (\<open>Number.isSafeInteger\<close>, at most \<open>2^53 - 1\<close> in absolute value) are
  Numbers that every operation below treats as JavaScript does: a double holds them
  exactly and they are printed in plain decimal notation. Other Numbers (fractions, values
  of larger magnitude, infinities, NaN) are not part of the embedding. Strings are lists of
  code units below 256.

  An object is the list of its own enumerable string-keyed properties, in the order in
  which JavaScript enumerates them. A function is known by its name only: what it does when
  it is called is not part of the embedding.
\<close>

datatype json =
    JNull
  | JBool bool
  | JNum int
  | JStr string
  | JArr "json list"
  | JObj "(string \<times> json) list"

datatype jsval =
    VUndefined
  | VNull
  | VBool bool
  | VNum int
  | VStr string
  | VArr "jsval list"
  | VObj "(string \<times> jsval) list"
  | VFunction string
  | VSymbol string
  | VCyclic

datatype error = TypeError | SyntaxError | Error string

fun of_json :: "json \<Rightarrow> jsval" where
  "of_json JNull = VNull"
| "of_json (JBool b) = VBool b"
| "of_json (JNum n) = VNum n"
| "of_json (JStr s) = VStr s"
| "of_json (JArr xs) = VArr (map of_json xs)"
| "of_json (JObj ps) = VObj (map (\<lambda>p. (fst p, of_json (snd p))) ps)"

text \<open>ToBoolean on the values \<open>JSON.parse\<close> can return.\<close>

fun truthy :: "json \<Rightarrow> bool" where
  "truthy JNull = False"
| "truthy (JBool b) = b"
| "truthy (JNum n) = (n \<noteq> 0)"
| "truthy (JStr s) = (s \<noteq> [])"
| "truthy (JArr xs) = True"
| "truthy (JObj ps) = True"

subsection \<open>Decimal numerals\<close>

definition is_digit :: "char \<Rightarrow> bool" where
  "is_digit c = (48 \<le> (of_char c :: nat) \<and> (of_char c :: nat) \<le> 57)"

definition digit_val :: "char \<Rightarrow> nat" where
  "digit_val c = of_char c - 48"

definition digit_char :: "nat \<Rightarrow> char" where
  "digit_char d = char_of (48 + d)"

fun show_nat :: "nat \<Rightarrow> string" where
  "show_nat n = (if n < 10 then [digit_char n] else show_nat (n div 10) @ [digit_char (n mod 10)])"

declare show_nat.simps [simp del]

definition show_int :: "int \<Rightarrow> string" where
  "show_int i = (if i < 0 then CHR ''-'' # show_nat (nat (- i)) else show_nat (nat i))"

definition read_nat :: "string \<Rightarrow> nat" where
  "read_nat ds = foldl (\<lambda>a c. 10 * a + digit_val c) 0 ds"

text \<open>\<open>Number.isSafeInteger\<close>, on integers.\<close>

definition safe_integer :: "int \<Rightarrow> bool" where
  "safe_integer n = (- 9007199254740991 \<le> n \<and> n \<le> 9007199254740991)"

subsection \<open>Property order of an ordinary object\<close>

text \<open>
  An array index is a canonical numeric string below \<open>2^32 - 1\<close>. The own keys of an
  ordinary object are listed with the array indices first, in ascending order, and the
  other strings after them in the order the properties were created.
  \<open>CreateDataProperty\<close> on an existing key replaces the value and keeps the position.
\<close>

definition array_index :: "string \<Rightarrow> nat option" where
  "array_index s =
     (if s = [] then None
      else if \<not> list_all is_digit s then None
      else if hd s = CHR ''0'' \<and> length s > 1 then None
      else if read_nat s < 4294967295 then Some (read_nat s) else None)"

definition own_property_order :: "(string \<times> 'a) list \<Rightarrow> (string \<times> 'a) list" where
  "own_property_order ps =
     sort_key (\<lambda>p. the (array_index (fst p))) (filter (\<lambda>p. array_index (fst p) \<noteq> None) ps)
     @ filter (\<lambda>p. array_index (fst p) = None) ps"

definition js_object :: "(string \<times> 'a) list \<Rightarrow> (string \<times> 'a) list" where
  "js_object es = own_property_order (foldl (\<lambda>ps e. AList.update (fst e) (snd e) ps) [] es)"

section \<open>JSON.stringify\<close>

text \<open>
  \<open>JSON.stringify\<close> first decides what each value contributes (\<open>to_json\<close>): a value
  that is \<open>undefined\<close>, a function or a symbol contributes nothing as a property value
  and \<open>null\<close> as an array element, and a cyclic object makes the whole call throw a
  TypeError. The document is then written without any white space (\<open>render\<close>).

  Two things that \<open>JSON.stringify\<close> does are not described by \<open>to_json\<close> and
  \<open>render\<close>. It calls a function that an object has under the name \<open>toJSON\<close> and
  serializes what the call returns in place of the object; and it writes a Number from
  \<open>1e21\<close> on with an exponent. Both are outside \<open>plain_data\<close>: the values whose
  numbers are safe integers, whose objects list their properties under distinct names in
  enumeration order, and in which no object has a function under the name \<open>toJSON\<close>.
  On plain data \<open>to_json\<close> and \<open>render\<close> are what \<open>JSON.stringify\<close> does, and the
  statements about serialization are made for plain data.
\<close>

fun callable :: "jsval \<Rightarrow> bool" where
  "callable (VFunction f) = True"
| "callable v = False"

fun plain_data :: "jsval \<Rightarrow> bool" where
  "plain_data (VNum n) = safe_integer n"
| "plain_data (VArr xs) = list_all plain_data xs"
| "plain_data (VObj ps) =
     (distinct (map fst ps) \<and> own_property_order ps = ps
      \<and> list_all (\<lambda>p. plain_data (snd p) \<and> \<not> (fst p = ''toJSON'' \<and> callable (snd p))) ps)"
| "plain_data v = True"

datatype 'a outcome = Throws | Omitted | Text 'a

fun to_json :: "jsval \<Rightarrow> json outcome" where
  "to_json VUndefined = Omitted"
| "to_json VNull = Text JNull"
| "to_json (VBool b) = Text (JBool b)"
| "to_json (VNum n) = Text (JNum n)"
| "to_json (VStr s) = Text (JStr s)"
| "to_json (VArr xs) =
     (if list_ex (\<lambda>x. to_json x = Throws) xs then Throws
      else Text (JArr (map (\<lambda>x. case to_json x of Text j \<Rightarrow> j | _ \<Rightarrow> JNull) xs)))"
| "to_json (VObj ps) =
     (if list_ex (\<lambda>p. to_json (snd p) = Throws) ps then Throws
      else Text (JObj (concat (map (\<lambda>p. case to_json (snd p) of
                                           Text j \<Rightarrow> [(fst p, j)] | _ \<Rightarrow> []) ps))))"
| "to_json (VFunction f) = Omitted"
| "to_json (VSymbol d) = Omitted"
| "to_json VCyclic = Throws"

definition hex_char :: "nat \<Rightarrow> char" where
  "hex_char d = (if d < 10 then char_of (48 + d) else char_of (87 + d))"

definition quote_char :: "char \<Rightarrow> string" where
  "quote_char c =
     (if c = CHR 0x22 then [CHR 0x5C, CHR 0x22]
      else if c = CHR 0x5C then [CHR 0x5C, CHR 0x5C]
      else if c = CHR 0x08 then [CHR 0x5C, CHR ''b'']
      else if c = CHR 0x0C then [CHR 0x5C, CHR ''f'']
      else if c = CHR 0x0A then [CHR 0x5C, CHR ''n'']
      else if c = CHR 0x0D then [CHR 0x5C, CHR ''r'']
      else if c = CHR 0x09 then [CHR 0x5C, CHR ''t'']
      else if (of_char c :: nat) < 32 then
        [CHR 0x5C, CHR ''u'', CHR ''0'', CHR ''0'',
         hex_char ((of_char c :: nat) div 16), hex_char ((of_char c :: nat) mod 16)]
      else [c])"

definition quote :: "string \<Rightarrow> string" where
  "quote s = CHR 0x22 # concat (map quote_char s) @ [CHR 0x22]"

fun commas :: "string list \<Rightarrow> string" where
  "commas [] = []"
| "commas [x] = x"
| "commas (x # y # ys) = x @ CHR '','' # commas (y # ys)"

fun render :: "json \<Rightarrow> string" where
  "render JNull = ''null''"
| "render (JBool b) = (if b then ''true'' else ''false'')"
| "render (JNum n) = show_int n"
| "render (JStr s) = quote s"
| "render (JArr xs) = CHR ''['' # commas (map render xs) @ '']''"
| "render (JObj ps) =
     CHR ''{'' # commas (map (\<lambda>p. quote (fst p) @ CHR '':'' # render (snd p)) ps) @ ''}''"

text \<open>One member of an object, as \<open>render\<close> writes it.\<close>

abbreviation member_text :: "string \<times> json \<Rightarrow> string" where
  "member_text p \<equiv> quote (fst p) @ CHR '':'' # render (snd p)"

definition JSON_stringify :: "jsval \<Rightarrow> error + string option" where
  "JSON_stringify v =
     (case to_json v of
        Throws \<Rightarrow> Inl TypeError
      | Omitted \<Rightarrow> Inr None
      | Text j \<Rightarrow> Inr (Some (render j)))"

section \<open>JSON.parse\<close>

text \<open>
  The parser reads one value and returns it with the unread text. White space is the
  four characters of the JSON grammar. A string must not hold a raw control character;
  an escape \<open>\u\<close> is followed by four hexadecimal digits in either case. A number is a
  minus sign, then \<open>0\<close> or a digit sequence without a leading zero.
  Objects are built by \<open>CreateDataProperty\<close> in the order of the text, so of two
  members with the same key the later value stays.

  The parser returns the values of \<open>json\<close> only. It answers \<open>None\<close> where
  \<open>JSON.parse\<close> throws a SyntaxError, and also where \<open>JSON.parse\<close> returns a value
  that \<open>json\<close> does not hold: for a number with a fraction or an exponent, for an
  integer that is not safe, and for an escape above \<open>\u00ff\<close>. The grammar alone is
  \<open>JSON_syntax\<close> below; a text outside it is one that \<open>JSON.parse\<close> rejects, and
  \<open>JSON_parse_exact\<close> holds of the texts on which the parser answers as
  \<open>JSON.parse\<close> does.
\<close>

definition is_ws :: "char \<Rightarrow> bool" where
  "is_ws c = (c = CHR 0x20 \<or> c = CHR 0x09 \<or> c = CHR 0x0A \<or> c = CHR 0x0D)"

definition skip_ws :: "string \<Rightarrow> string" where
  "skip_ws s = dropWhile is_ws s"

definition hex_val :: "char \<Rightarrow> nat option" where
  "hex_val c =
     (let n = (of_char c :: nat) in
      if 48 \<le> n \<and> n \<le> 57 then Some (n - 48)
      else if 97 \<le> n \<and> n \<le> 102 then Some (n - 87)
      else if 65 \<le> n \<and> n \<le> 70 then Some (n - 55)
      else None)"

definition hex4 :: "char \<Rightarrow> char \<Rightarrow> char \<Rightarrow> char \<Rightarrow> char option" where
  "hex4 a b c d =
     (case (hex_val a, hex_val b, hex_val c, hex_val d) of
        (Some h3, Some h2, Some h1, Some h0) \<Rightarrow>
          (if h3 = 0 \<and> h2 = 0 then Some (char_of (16 * h1 + h0)) else None)
      | _ \<Rightarrow> None)"

definition unescape :: "char \<Rightarrow> char option" where
  "unescape e =
     (if e = CHR 0x22 then Some (CHR 0x22)
      else if e = CHR 0x5C then Some (CHR 0x5C)
      else if e = CHR ''/'' then Some (CHR ''/'')
      else if e = CHR ''b'' then Some (CHR 0x08)
      else if e = CHR ''f'' then Some (CHR 0x0C)
      else if e = CHR ''n'' then Some (CHR 0x0A)
      else if e = CHR ''r'' then Some (CHR 0x0D)
      else if e = CHR ''t'' then Some (CHR 0x09)
      else None)"

text \<open>The characters of a string, read after its opening quotation mark.\<close>

fun parse_chars :: "string \<Rightarrow> (string \<times> string) option" where
  "parse_chars [] = None"
| "parse_chars (c # cs) =
     (if c = CHR 0x22 then Some ([], cs)
      else if c = CHR 0x5C then
        (case cs of
           [] \<Rightarrow> None
         | e # cs' \<Rightarrow>
             if e = CHR ''u'' then
               (case cs' of
                  h3 # h2 # h1 # h0 # rest \<Rightarrow>
                    (case hex4 h3 h2 h1 h0 of
                       None \<Rightarrow> None
                     | Some ch \<Rightarrow> map_option (\<lambda>r. (ch # fst r, snd r)) (parse_chars rest))
                | _ \<Rightarrow> None)
             else
               (case unescape e of
                  None \<Rightarrow> None
                | Some ch \<Rightarrow> map_option (\<lambda>r. (ch # fst r, snd r)) (parse_chars cs')))
      else if (of_char c :: nat) < 32 then None
      else map_option (\<lambda>r. (c # fst r, snd r)) (parse_chars cs))"

definition parse_nat :: "string \<Rightarrow> (nat \<times> string) option" where
  "parse_nat s =
     (case s of
        [] \<Rightarrow> None
      | c # cs \<Rightarrow>
          if c = CHR ''0'' then Some (0, cs)
          else if is_digit c then
            Some (read_nat (takeWhile is_digit s), dropWhile is_digit s)
          else None)"

definition parse_number :: "string \<Rightarrow> (json \<times> string) option" where
  "parse_number s =
     (case (case s of
              [] \<Rightarrow> None
            | c # cs \<Rightarrow>
                if c = CHR ''-'' then map_option (\<lambda>r. (- int (fst r), snd r)) (parse_nat cs)
                else map_option (\<lambda>r. (int (fst r), snd r)) (parse_nat s)) of
        None \<Rightarrow> None
      | Some (n, rest) \<Rightarrow>
          if \<not> safe_integer n then None
          else
            (case rest of
               [] \<Rightarrow> Some (JNum n, rest)
             | d # _ \<Rightarrow>
                 if d = CHR ''.'' \<or> d = CHR ''e'' \<or> d = CHR ''E'' then None
                 else Some (JNum n, rest)))"

definition strip_prefix :: "string \<Rightarrow> string \<Rightarrow> string option" where
  "strip_prefix p s = (if take (length p) s = p then Some (drop (length p) s) else None)"

function parse_value :: "string \<Rightarrow> (json \<times> string) option"
  and parse_elements :: "string \<Rightarrow> (json list \<times> string) option"
  and parse_members :: "string \<Rightarrow> ((string \<times> json) list \<times> string) option"
where
  "parse_value s =
     (case skip_ws s of
        [] \<Rightarrow> None
      | c # cs \<Rightarrow>
          if c = CHR ''{'' then
            (case skip_ws cs of
               [] \<Rightarrow> None
             | d # r \<Rightarrow>
                 if d = CHR ''}'' then Some (JObj [], r)
                 else map_option (\<lambda>m. (JObj (js_object (fst m)), snd m)) (parse_members cs))
          else if c = CHR ''['' then
            (case skip_ws cs of
               [] \<Rightarrow> None
             | d # r \<Rightarrow>
                 if d = CHR '']'' then Some (JArr [], r)
                 else map_option (\<lambda>m. (JArr (fst m), snd m)) (parse_elements cs))
          else if c = CHR 0x22 then map_option (\<lambda>m. (JStr (fst m), snd m)) (parse_chars cs)
          else if c = CHR ''t'' then map_option (\<lambda>r. (JBool True, r)) (strip_prefix ''rue'' cs)
          else if c = CHR ''f'' then map_option (\<lambda>r. (JBool False, r)) (strip_prefix ''alse'' cs)
          else if c = CHR ''n'' then map_option (\<lambda>r. (JNull, r)) (strip_prefix ''ull'' cs)
          else parse_number (c # cs))"
| "parse_elements s =
     (case parse_value s of
        None \<Rightarrow> None
      | Some (v, r) \<Rightarrow>
          (case skip_ws r of
             [] \<Rightarrow> None
           | d # r' \<Rightarrow>
               if d = CHR '']'' then Some ([v], r')
               else if d = CHR '','' \<and> length r' < length s then
                 map_option (\<lambda>m. (v # fst m, snd m)) (parse_elements r')
               else None))"
| "parse_members s =
     (case skip_ws s of
        [] \<Rightarrow> None
      | q # cs \<Rightarrow>
          if q \<noteq> CHR 0x22 then None
          else
            (case parse_chars cs of
               None \<Rightarrow> None
             | Some (k, r) \<Rightarrow>
                 (case skip_ws r of
                    [] \<Rightarrow> None
                  | c # r1 \<Rightarrow>
                      if c = CHR '':'' \<and> length r1 < length s then
                        (case parse_value r1 of
                           None \<Rightarrow> None
                         | Some (v, r2) \<Rightarrow>
                             (case skip_ws r2 of
                                [] \<Rightarrow> None
                              | d # r3 \<Rightarrow>
                                  if d = CHR ''}'' then Some ([(k, v)], r3)
                                  else if d = CHR '','' \<and> length r3 < length s then
                                    map_option (\<lambda>m. ((k, v) # fst m, snd m)) (parse_members r3)
                                  else None))
                      else None)))"
  by pat_completeness auto

lemma length_skip_ws: "length (skip_ws s) \<le> length s"
  by (simp add: skip_ws_def length_dropWhile_le)

lemma skip_ws_Cons_length: "skip_ws s = c # cs \<Longrightarrow> length cs < length s"
  using length_skip_ws [of s] by simp

termination parse_value
  by (relation "measure (\<lambda>x. case x of
          Inl s \<Rightarrow> 2 * length s
        | Inr (Inl s) \<Rightarrow> 2 * length s + 1
        | Inr (Inr s) \<Rightarrow> 2 * length s + 1)")
     (auto dest: skip_ws_Cons_length)

declare parse_value.simps [simp del] parse_elements.simps [simp del] parse_members.simps [simp del]

definition JSON_parse :: "string \<Rightarrow> json option" where
  "JSON_parse text =
     (case parse_value text of
        None \<Rightarrow> None
      | Some (v, rest) \<Rightarrow> if skip_ws rest = [] then Some v else None)"

text \<open>
  What \<open>JSON.parse\<close> makes of a document written by \<open>render\<close>: the same document, with
  every object rebuilt property by property.
\<close>

fun canon :: "json \<Rightarrow> json" where
  "canon JNull = JNull"
| "canon (JBool b) = JBool b"
| "canon (JNum n) = JNum n"
| "canon (JStr s) = JStr s"
| "canon (JArr xs) = JArr (map canon xs)"
| "canon (JObj ps) = JObj (js_object (map (\<lambda>p. (fst p, canon (snd p))) ps))"

text \<open>The documents whose numbers are safe integers.\<close>

fun safe_json :: "json \<Rightarrow> bool" where
  "safe_json (JNum n) = safe_integer n"
| "safe_json (JArr xs) = list_all safe_json xs"
| "safe_json (JObj ps) = list_all (\<lambda>p. safe_json (snd p)) ps"
| "safe_json j = True"

definition number_end :: "string \<Rightarrow> bool" where
  "number_end rest =
     (case rest of
        [] \<Rightarrow> True
      | d # _ \<Rightarrow> \<not> is_digit d \<and> d \<noteq> CHR ''.'' \<and> d \<noteq> CHR ''e'' \<and> d \<noteq> CHR ''E'')"

definition value_start :: "char \<Rightarrow> bool" where
  "value_start c =
     (c = CHR ''n'' \<or> c = CHR ''t'' \<or> c = CHR ''f'' \<or> c = CHR ''-'' \<or> is_digit c
      \<or> c = CHR 0x22 \<or> c = CHR ''['' \<or> c = CHR ''{'')"

subsection \<open>The JSON grammar\<close>

text \<open>
  The texts that \<open>JSON.parse\<close> accepts: the grammar of ECMA-404, with every number
  (an optional fraction and an optional exponent after the integer part) and every escape
  \<open>\u\<close> with four hexadecimal digits. Each function returns the unread text. The tests
  on lengths make the recursion well-founded; they hold whenever they are reached
  (\<open>syntax_elements_unfold\<close>, \<open>syntax_members_unfold\<close>).
\<close>

fun syntax_chars :: "string \<Rightarrow> string option" where
  "syntax_chars [] = None"
| "syntax_chars (c # cs) =
     (if c = CHR 0x22 then Some cs
      else if c = CHR 0x5C then
        (case cs of
           [] \<Rightarrow> None
         | e # cs' \<Rightarrow>
             if e = CHR ''u'' then
               (case cs' of
                  h3 # h2 # h1 # h0 # rest \<Rightarrow>
                    if hex_val h3 = None \<or> hex_val h2 = None \<or> hex_val h1 = None \<or> hex_val h0 = None
                    then None
                    else syntax_chars rest
                | _ \<Rightarrow> None)
             else
               (case unescape e of
                  None \<Rightarrow> None
                | Some ch \<Rightarrow> syntax_chars cs'))
      else if (of_char c :: nat) < 32 then None
      else syntax_chars cs)"

definition syntax_digits :: "string \<Rightarrow> string option" where
  "syntax_digits s =
     (case s of
        [] \<Rightarrow> None
      | c # cs \<Rightarrow> if is_digit c then Some (dropWhile is_digit cs) else None)"

definition syntax_int :: "string \<Rightarrow> string option" where
  "syntax_int s =
     (case s of
        [] \<Rightarrow> None
      | c # cs \<Rightarrow>
          if c = CHR ''0'' then Some cs
          else if is_digit c then Some (dropWhile is_digit s)
          else None)"

definition syntax_fraction :: "string \<Rightarrow> string option" where
  "syntax_fraction s =
     (case s of
        [] \<Rightarrow> Some s
      | c # cs \<Rightarrow> if c = CHR ''.'' then syntax_digits cs else Some s)"

definition syntax_exponent :: "string \<Rightarrow> string option" where
  "syntax_exponent s =
     (case s of
        [] \<Rightarrow> Some s
      | c # cs \<Rightarrow>
          if c = CHR ''e'' \<or> c = CHR ''E'' then
            (case cs of
               [] \<Rightarrow> None
             | d # ds \<Rightarrow> if d = CHR ''+'' \<or> d = CHR ''-'' then syntax_digits ds else syntax_digits cs)
          else Some s)"

definition syntax_number :: "string \<Rightarrow> string option" where
  "syntax_number s =
     (case (case s of
              [] \<Rightarrow> None
            | c # cs \<Rightarrow> if c = CHR ''-'' then syntax_int cs else syntax_int s) of
        None \<Rightarrow> None
      | Some rest \<Rightarrow>
          (case syntax_fraction rest of
             None \<Rightarrow> None
           | Some rest' \<Rightarrow> syntax_exponent rest'))"

function syntax_value :: "string \<Rightarrow> string option"
  and syntax_elements :: "string \<Rightarrow> string option"
  and syntax_members :: "string \<Rightarrow> string option"
where
  "syntax_value s =
     (case skip_ws s of
        [] \<Rightarrow> None
      | c # cs \<Rightarrow>
          if c = CHR ''{'' then
            (case skip_ws cs of
               [] \<Rightarrow> None
             | d # r \<Rightarrow> if d = CHR ''}'' then Some r else syntax_members cs)
          else if c = CHR ''['' then
            (case skip_ws cs of
               [] \<Rightarrow> None
             | d # r \<Rightarrow> if d = CHR '']'' then Some r else syntax_elements cs)
          else if c = CHR 0x22 then syntax_chars cs
          else if c = CHR ''t'' then strip_prefix ''rue'' cs
          else if c = CHR ''f'' then strip_prefix ''alse'' cs
          else if c = CHR ''n'' then strip_prefix ''ull'' cs
          else syntax_number (c # cs))"
| "syntax_elements s =
     (case syntax_value s of
        None \<Rightarrow> None
      | Some r \<Rightarrow>
          (case skip_ws r of
             [] \<Rightarrow> None
           | d # r' \<Rightarrow>
               if d = CHR '']'' then Some r'
               else if d = CHR '','' \<and> length r' < length s then syntax_elements r'
               else None))"
| "syntax_members s =
     (case skip_ws s of
        [] \<Rightarrow> None
      | q # cs \<Rightarrow>
          if q \<noteq> CHR 0x22 then None
          else
            (case syntax_chars cs of
               None \<Rightarrow> None
             | Some r \<Rightarrow>
                 (case skip_ws r of
                    [] \<Rightarrow> None
                  | c # r1 \<Rightarrow>
                      if c = CHR '':'' \<and> length r1 < length s then
                        (case syntax_value r1 of
                           None \<Rightarrow> None
                         | Some r2 \<Rightarrow>
                             (case skip_ws r2 of
                                [] \<Rightarrow> None
                              | d # r3 \<Rightarrow>
                                  if d = CHR ''}'' then Some r3
                                  else if d = CHR '','' \<and> length r3 < length s then syntax_members r3
                                  else None))
                      else None)))"
  by pat_completeness auto

termination syntax_value
  by (relation "measure (\<lambda>x. case x of
          Inl s \<Rightarrow> 2 * length s
        | Inr (Inl s) \<Rightarrow> 2 * length s + 1
        | Inr (Inr s) \<Rightarrow> 2 * length s + 1)")
     (auto dest: skip_ws_Cons_length)

declare syntax_value.simps [simp del] syntax_elements.simps [simp del] syntax_members.simps [simp del]

definition JSON_syntax :: "string \<Rightarrow> bool" where
  "JSON_syntax text =
     (case syntax_value text of
        None \<Rightarrow> False
      | Some rest \<Rightarrow> skip_ws rest = [])"

text \<open>
  The texts on which \<open>JSON_parse\<close> answers as \<open>JSON.parse\<close> does: it returns a
  value, or the text is outside the grammar. A runtime hydrates as described when the text
  of its script element, if there is one, is such a text.
\<close>

definition JSON_parse_exact :: "string \<Rightarrow> bool" where
  "JSON_parse_exact text = (JSON_parse text \<noteq> None \<or> \<not> JSON_syntax text)"

section \<open>The script element in the page\<close>

text \<open>
  React writes the value of \<open>dangerouslySetInnerHTML\<close> into the page as it is, followed
  by the end tag of the element and the rest of the markup. The browser reads the text of
  a script element with the script data states of the HTML tokenizer: the text ends at
  the first end tag named \<open>script\<close> (in any letter case, followed by white space, a slash
  or a greater-than sign), except inside \<open><!--<script\<close>, where such an end tag only
  leaves the inner level. Line breaks are normalised first. The tokenizer also replaces
  U+0000 by U+FFFD, which is no code unit below 256; \<open>JSON.stringify\<close> never writes a
  raw U+0000, and the character is left as it is here.
\<close>

record script_element =
  elem_id :: string
  elem_type :: string
  inner_html :: string

datatype script_state =
    ScriptData
  | LessThanSign
  | EndTagOpen
  | EndTagName string
  | EscapeStart
  | EscapeStartDash
  | Escaped
  | EscapedDash
  | EscapedDashDash
  | EscapedLessThanSign
  | EscapedEndTagOpen
  | EscapedEndTagName string
  | DoubleEscapeStart string
  | DoubleEscaped
  | DoubleEscapedDash
  | DoubleEscapedDashDash
  | DoubleEscapedLessThanSign
  | DoubleEscapeEnd string

datatype step = Emit string script_state | Close

definition is_alpha :: "char \<Rightarrow> bool" where
  "is_alpha c =
     ((65 \<le> (of_char c :: nat) \<and> (of_char c :: nat) \<le> 90)
      \<or> (97 \<le> (of_char c :: nat) \<and> (of_char c :: nat) \<le> 122))"

definition lower :: "char \<Rightarrow> char" where
  "lower c =
     (if 65 \<le> (of_char c :: nat) \<and> (of_char c :: nat) \<le> 90
      then char_of ((of_char c :: nat) + 32) else c)"

definition tag_end :: "char \<Rightarrow> bool" where
  "tag_end c =
     (c = CHR 0x09 \<or> c = CHR 0x0A \<or> c = CHR 0x0C \<or> c = CHR 0x20 \<or> c = CHR ''/''
      \<or> c = CHR ''>'')"

definition in_script_data :: "string \<Rightarrow> char \<Rightarrow> step" where
  "in_script_data out c =
     (if c = CHR ''<'' then Emit out LessThanSign else Emit (out @ [c]) ScriptData)"

definition in_escaped :: "string \<Rightarrow> char \<Rightarrow> step" where
  "in_escaped out c =
     (if c = CHR ''-'' then Emit (out @ ''-'') EscapedDash
      else if c = CHR ''<'' then Emit out EscapedLessThanSign
      else Emit (out @ [c]) Escaped)"

definition in_double_escaped :: "string \<Rightarrow> char \<Rightarrow> step" where
  "in_double_escaped out c =
     (if c = CHR ''-'' then Emit (out @ ''-'') DoubleEscapedDash
      else if c = CHR ''<'' then Emit (out @ ''<'') DoubleEscapedLessThanSign
      else Emit (out @ [c]) DoubleEscaped)"

fun tokenize_step :: "script_state \<Rightarrow> char \<Rightarrow> step" where
  "tokenize_step ScriptData c = in_script_data [] c"
| "tokenize_step LessThanSign c =
     (if c = CHR ''/'' then Emit [] EndTagOpen
      else if c = CHR ''!'' then Emit ''<!'' EscapeStart
      else in_script_data ''<'' c)"
| "tokenize_step EndTagOpen c =
     (if is_alpha c then Emit [] (EndTagName [c]) else in_script_data ''</'' c)"
| "tokenize_step (EndTagName name) c =
     (if tag_end c \<and> map lower name = ''script'' then Close
      else if is_alpha c then Emit [] (EndTagName (name @ [c]))
      else in_script_data (''</'' @ name) c)"
| "tokenize_step EscapeStart c =
     (if c = CHR ''-'' then Emit ''-'' EscapeStartDash else in_script_data [] c)"
| "tokenize_step EscapeStartDash c =
     (if c = CHR ''-'' then Emit ''-'' EscapedDashDash else in_script_data [] c)"
| "tokenize_step Escaped c = in_escaped [] c"
| "tokenize_step EscapedDash c =
     (if c = CHR ''-'' then Emit ''-'' EscapedDashDash
      else if c = CHR ''<'' then Emit [] EscapedLessThanSign
      else Emit [c] Escaped)"
| "tokenize_step EscapedDashDash c =
     (if c = CHR ''-'' then Emit ''-'' EscapedDashDash
      else if c = CHR ''<'' then Emit [] EscapedLessThanSign
      else if c = CHR ''>'' then Emit ''>'' ScriptData
      else Emit [c] Escaped)"
| "tokenize_step EscapedLessThanSign c =
     (if c = CHR ''/'' then Emit [] EscapedEndTagOpen
      else if is_alpha c then Emit [CHR ''<'', c] (DoubleEscapeStart [lower c])
      else in_escaped ''<'' c)"
| "tokenize_step EscapedEndTagOpen c =
     (if is_alpha c then Emit [] (EscapedEndTagName [c]) else in_escaped ''</'' c)"
| "tokenize_step (EscapedEndTagName name) c =
     (if tag_end c \<and> map lower name = ''script'' then Close
      else if is_alpha c then Emit [] (EscapedEndTagName (name @ [c]))
      else in_escaped (''</'' @ name) c)"
| "tokenize_step (DoubleEscapeStart name) c =
     (if tag_end c then Emit [c] (if name = ''script'' then DoubleEscaped else Escaped)
      else if is_alpha c then Emit [c] (DoubleEscapeStart (name @ [lower c]))
      else in_escaped [] c)"
| "tokenize_step DoubleEscaped c = in_double_escaped [] c"
| "tokenize_step DoubleEscapedDash c =
     (if c = CHR ''-'' then Emit ''-'' DoubleEscapedDashDash
      else if c = CHR ''<'' then Emit ''<'' DoubleEscapedLessThanSign
      else Emit [c] DoubleEscaped)"
| "tokenize_step DoubleEscapedDashDash c =
     (if c = CHR ''-'' then Emit ''-'' DoubleEscapedDashDash
      else if c = CHR ''<'' then Emit ''<'' DoubleEscapedLessThanSign
      else if c = CHR ''>'' then Emit ''>'' ScriptData
      else Emit [c] DoubleEscaped)"
| "tokenize_step DoubleEscapedLessThanSign c =
     (if c = CHR ''/'' then Emit ''/'' (DoubleEscapeEnd []) else in_double_escaped [] c)"
| "tokenize_step (DoubleEscapeEnd name) c =
     (if tag_end c then Emit [c] (if name = ''script'' then Escaped else DoubleEscaped)
      else if is_alpha c then Emit [c] (DoubleEscapeEnd (name @ [lower c]))
      else in_double_escaped [] c)"

text \<open>What is still to be written when the input ends inside the element.\<close>

fun at_eof :: "script_state \<Rightarrow> string" where
  "at_eof LessThanSign = ''<''"
| "at_eof EndTagOpen = ''</''"
| "at_eof (EndTagName name) = ''</'' @ name"
| "at_eof EscapedLessThanSign = ''<''"
| "at_eof EscapedEndTagOpen = ''</''"
| "at_eof (EscapedEndTagName name) = ''</'' @ name"
| "at_eof st = []"

fun script_data :: "script_state \<Rightarrow> string \<Rightarrow> string" where
  "script_data st [] = at_eof st"
| "script_data st (c # cs) =
     (case tokenize_step st c of
        Close \<Rightarrow> []
      | Emit out st' \<Rightarrow> out @ script_data st' cs)"

fun normalize_newlines :: "string \<Rightarrow> string" where
  "normalize_newlines [] = []"
| "normalize_newlines [c] = (if c = CHR 0x0D then [CHR 0x0A] else [c])"
| "normalize_newlines (c # d # cs) =
     (if c = CHR 0x0D \<and> d = CHR 0x0A then CHR 0x0A # normalize_newlines cs
      else if c = CHR 0x0D then CHR 0x0A # normalize_newlines (d # cs)
      else c # normalize_newlines (d # cs))"

definition textContent :: "string \<Rightarrow> string \<Rightarrow> string" where
  "textContent html rest = script_data ScriptData (normalize_newlines (html @ ''</script>'' @ rest))"

text \<open>
  The document the browser builds from a page that holds what the serializer rendered,
  followed by \<open>rest\<close>: element ids mapped to the text of the element.
\<close>

definition load_page :: "script_element option \<Rightarrow> string \<Rightarrow> (string \<Rightarrow> string option)" where
  "load_page rendered rest =
     (case rendered of
        None \<Rightarrow> Map.empty
      | Some el \<Rightarrow> [elem_id el \<mapsto> textContent (inner_html el) rest])"

section \<open>The server module\<close>

text \<open>
  \<open>getRequestStore\<close> is \<open>cache(() => new Map())\<close>. React's \<open>cache\<close> memoises the
  function per request: the first call during a request runs it and keeps the result,
  later calls of the same request return what was kept. The \<open>Map\<close> objects live in a
  heap (\<open>maps\<close>) and are addressed by their position, so that two holders of the same
  address see each other's writes. Addresses come from \<open>new Map()\<close> only, so every
  address in use is allocated (\<open>cache_ok\<close> below). \<open>Map.set\<close> replaces the value of
  a key that is present and appends a key that is not.
\<close>

type_synonym request = nat

record server =
  maps :: "(string \<times> jsval) list list"
  request_cache :: "request \<Rightarrow> nat option"
  server_console :: "string list"

definition server_init :: server where
  "server_init = \<lparr>maps = [], request_cache = Map.empty, server_console = []\<rparr>"

definition new_Map :: "server \<Rightarrow> nat \<times> server" where
  "new_Map s = (length (maps s), s\<lparr>maps := maps s @ [[]]\<rparr>)"

definition cache :: "(server \<Rightarrow> nat \<times> server) \<Rightarrow> request \<Rightarrow> server \<Rightarrow> nat \<times> server" where
  "cache fn r s =
     (case request_cache s r of
        Some kept \<Rightarrow> (kept, s)
      | None \<Rightarrow>
          (case fn s of
             (result, s') \<Rightarrow> (result, s'\<lparr>request_cache := (request_cache s')(r \<mapsto> result)\<rparr>)))"

definition getRequestStore :: "request \<Rightarrow> server \<Rightarrow> nat \<times> server" where
  "getRequestStore = cache new_Map"

definition Map_set :: "nat \<Rightarrow> string \<Rightarrow> jsval \<Rightarrow> server \<Rightarrow> server" where
  "Map_set m k v s = s\<lparr>maps := (maps s)[m := AList.update k v (maps s ! m)]\<rparr>"

definition Map_size :: "nat \<Rightarrow> server \<Rightarrow> nat" where
  "Map_size m s = length (maps s ! m)"

definition Object_fromEntries :: "(string \<times> jsval) list \<Rightarrow> jsval" where
  "Object_fromEntries entries = VObj (js_object entries)"

definition console_log :: "string \<Rightarrow> server \<Rightarrow> server" where
  "console_log msg s = s\<lparr>server_console := server_console s @ [msg]\<rparr>"

definition is_function :: "jsval \<Rightarrow> bool" where
  "is_function v = (case v of VFunction f \<Rightarrow> True | _ \<Rightarrow> False)"

definition is_symbol :: "jsval \<Rightarrow> bool" where
  "is_symbol v = (case v of VSymbol d \<Rightarrow> True | _ \<Rightarrow> False)"

text \<open>
  \<open>BridgeSerializer\<close> returns what it renders, \<open>None\<close> for \<open>null\<close>, or the error it
  throws. \<open>node_env\<close> is \<open>process.env.NODE_ENV\<close>.
\<close>

definition BridgeSerializer ::
  "string \<Rightarrow> request \<Rightarrow> server \<Rightarrow> (error + script_element option) \<times> server" where
  "BridgeSerializer node_env r s =
     (case getRequestStore r s of
        (store, s1) \<Rightarrow>
          if Map_size store s1 = 0 then (Inr None, s1)
          else
            (case JSON_stringify (Object_fromEntries (maps s1 ! store)) of
               Inl e \<Rightarrow>
                 if node_env = ''development'' then
                   (Inl (Error ''ContextBridge: Data cannot be serialized (possibly due to circular reference).''),
                    console_log ''ContextBridge Error: Unable to serialize data.'' s1)
                 else (Inr None, console_log ''ContextBridge: Serialization error'' s1)
             | Inr jsonString \<Rightarrow>
                 (Inr (Some \<lparr>elem_id = ''__CONTEXT_BRIDGE_STORE__'',
                             elem_type = ''application/json'',
                             inner_html = (case jsonString of None \<Rightarrow> [] | Some t \<Rightarrow> t)\<rparr>),
                  s1)))"

text \<open>
  \<open>createBridgeProvider bridgeId\<close> is the Provider component; rendering it with the
  property \<open>data\<close> first warns, in development only, about a value that will be lost,
  then stores the value and renders the children.
\<close>

definition warn_if_lost :: "string \<Rightarrow> jsval \<Rightarrow> string \<Rightarrow> server \<Rightarrow> server" where
  "warn_if_lost bridgeId dat node_env s =
     (if node_env = ''development''
         \<and> (dat = VUndefined \<or> is_function dat \<or> is_symbol dat)
      then console_log
             (''ContextBridge Warning ['' @ bridgeId
              @ '']: Data passed to Provider is 'undefined', 'function', or 'symbol'. ''
              @ [CHR 0x0A]
              @ ''          It will be lost during serialization. Data must be JSON-serializable.'') s
      else s)"

definition createBridgeProvider :: "string \<Rightarrow> jsval \<Rightarrow> string \<Rightarrow> request \<Rightarrow> server \<Rightarrow> server" where
  "createBridgeProvider bridgeId dat node_env r s =
     (case getRequestStore r (warn_if_lost bridgeId dat node_env s) of
        (store, s1) \<Rightarrow> Map_set store bridgeId dat s1)"

subsection \<open>A render pass\<close>

text \<open>
  A server render is a sequence of component renders, each belonging to a request.
  \<open>request_store\<close> is the content of the \<open>Map\<close> that \<open>getRequestStore\<close> hands out
  in a request (empty while none was made), and \<open>provided\<close> lists what the Providers
  of a request were given, in render order.
\<close>

datatype component = RenderProvider request string jsval | RenderSerializer request

fun render_step :: "string \<Rightarrow> server \<Rightarrow> component \<Rightarrow> server" where
  "render_step node_env s (RenderProvider r bridgeId dat) =
     createBridgeProvider bridgeId dat node_env r s"
| "render_step node_env s (RenderSerializer r) = snd (BridgeSerializer node_env r s)"

definition render_all :: "string \<Rightarrow> server \<Rightarrow> component list \<Rightarrow> server" where
  "render_all node_env s renders = foldl (render_step node_env) s renders"

definition request_store :: "request \<Rightarrow> server \<Rightarrow> (string \<times> jsval) list" where
  "request_store r s = (case request_cache s r of None \<Rightarrow> [] | Some m \<Rightarrow> maps s ! m)"

fun provided :: "request \<Rightarrow> component list \<Rightarrow> (string \<times> jsval) list" where
  "provided r [] = []"
| "provided r (RenderProvider r' bridgeId dat # rs) =
     (if r' = r then (bridgeId, dat) # provided r rs else provided r rs)"
| "provided r (RenderSerializer r' # rs) = provided r rs"

definition set_all :: "(string \<times> jsval) list \<Rightarrow> (string \<times> jsval) list \<Rightarrow> (string \<times> jsval) list" where
  "set_all m entries = foldl (\<lambda>m e. AList.update (fst e) (snd e) m) m entries"

text \<open>Every kept address is allocated, and no two requests keep the same address.\<close>

definition cache_ok :: "server \<Rightarrow> bool" where
  "cache_ok s =
     (\<forall>r m. request_cache s r = Some m \<longrightarrow>
        m < length (maps s) \<and> (\<forall>r'. request_cache s r' = Some m \<longrightarrow> r' = r))"

section \<open>The client module\<close>

text \<open>
  The client keeps the module variable \<open>clientStore\<close>, \<open>null\<close> at first. The calls to
  the host (\<open>document.getElementById\<close>, \<open>JSON.parse\<close>, \<open>console.error\<close>) are recorded
  in the order they happen. A runtime either has no \<open>window\<close> or has a document, which
  maps an element id to the text of the element.
\<close>

datatype host_call = GetElementById string | Parse string | ConsoleError string

record client =
  clientStore :: json
  calls :: "host_call list"

definition client_init :: client where
  "client_init = \<lparr>clientStore = JNull, calls = []\<rparr>"

datatype runtime = NoWindow | Window "string \<Rightarrow> string option"

definition getHydratedStore :: "runtime \<Rightarrow> client \<Rightarrow> json \<times> client" where
  "getHydratedStore rt c =
     (if truthy (clientStore c) then (clientStore c, c)
      else
        (case rt of
           NoWindow \<Rightarrow> (JObj [], c)
         | Window document \<Rightarrow>
             (let c1 = c\<lparr>calls := calls c @ [GetElementById ''__CONTEXT_BRIDGE_STORE__'']\<rparr> in
              case document ''__CONTEXT_BRIDGE_STORE__'' of
                None \<Rightarrow> (JObj [], c1\<lparr>clientStore := JObj []\<rparr>)
              | Some text \<Rightarrow>
                  if text = [] then (JObj [], c1\<lparr>clientStore := JObj []\<rparr>)
                  else
                    (let c2 = c1\<lparr>calls := calls c1 @ [Parse text]\<rparr> in
                     case JSON_parse text of
                       None \<Rightarrow>
                         (JObj [],
                          c2\<lparr>calls := calls c2
                                 @ [ConsoleError ''ContextBridge Error: Unable to parse data from server.''],
                             clientStore := JObj []\<rparr>)
                     | Some v \<Rightarrow> (if truthy v then v else JObj [], c2\<lparr>clientStore := v\<rparr>)))))"

definition hydration_exact :: "runtime \<Rightarrow> bool" where
  "hydration_exact rt =
     (case rt of
        NoWindow \<Rightarrow> True
      | Window document \<Rightarrow>
          (case document ''__CONTEXT_BRIDGE_STORE__'' of
             None \<Rightarrow> True
           | Some text \<Rightarrow> JSON_parse_exact text))"

subsection \<open>Property access\<close>

text \<open>
  \<open>store[bridgeId]\<close> looks for an own property and then along the prototype chain.
  The lists hold the names that the prototypes of ECMAScript 2023 define; a function
  found there is written \<open>VFunction\<close> with its qualified name, and \<open>__proto__\<close> gives
  the prototype object, which has no enumerable property of its own.
  Reading a property of \<open>null\<close> throws a TypeError.
\<close>

definition Object_prototype_names :: "string list" where
  "Object_prototype_names =
     [''constructor'', ''__defineGetter__'', ''__defineSetter__'', ''hasOwnProperty'',
      ''__lookupGetter__'', ''__lookupSetter__'', ''isPrototypeOf'', ''propertyIsEnumerable'',
      ''toString'', ''valueOf'', ''toLocaleString'']"

definition Array_prototype_names :: "string list" where
  "Array_prototype_names =
     [''at'', ''concat'', ''constructor'', ''copyWithin'', ''entries'', ''every'', ''fill'',
      ''filter'', ''find'', ''findIndex'', ''findLast'', ''findLastIndex'', ''flat'', ''flatMap'',
      ''forEach'', ''includes'', ''indexOf'', ''join'', ''keys'', ''lastIndexOf'', ''map'', ''pop'',
      ''push'', ''reduce'', ''reduceRight'', ''reverse'', ''shift'', ''slice'', ''some'', ''sort'',
      ''splice'', ''toLocaleString'', ''toReversed'', ''toSorted'', ''toSpliced'', ''toString'',
      ''unshift'', ''values'', ''with'']"

definition String_prototype_names :: "string list" where
  "String_prototype_names =
     [''anchor'', ''at'', ''big'', ''blink'', ''bold'', ''charAt'', ''charCodeAt'', ''codePointAt'',
      ''concat'', ''constructor'', ''endsWith'', ''fixed'', ''fontcolor'', ''fontsize'',
      ''includes'', ''indexOf'', ''isWellFormed'', ''italics'', ''lastIndexOf'', ''link'',
      ''localeCompare'', ''match'', ''matchAll'', ''normalize'', ''padEnd'', ''padStart'',
      ''repeat'', ''replace'', ''replaceAll'', ''search'', ''slice'', ''small'', ''split'',
      ''startsWith'', ''strike'', ''sub'', ''substr'', ''substring'', ''sup'',
      ''toLocaleLowerCase'', ''toLocaleUpperCase'', ''toLowerCase'', ''toString'',
      ''toUpperCase'', ''toWellFormed'', ''trim'', ''trimEnd'', ''trimLeft'', ''trimRight'',
      ''trimStart'', ''valueOf'']"

definition Number_prototype_names :: "string list" where
  "Number_prototype_names =
     [''constructor'', ''toExponential'', ''toFixed'', ''toLocaleString'', ''toPrecision'',
      ''toString'', ''valueOf'']"

definition Boolean_prototype_names :: "string list" where
  "Boolean_prototype_names = [''constructor'', ''toString'', ''valueOf'']"

definition Object_prototype :: "jsval \<Rightarrow> string \<Rightarrow> jsval" where
  "Object_prototype proto k =
     (if k \<in> set Object_prototype_names then VFunction (''Object.prototype.'' @ k)
      else if k = ''__proto__'' then proto
      else VUndefined)"

definition inherited :: "string \<Rightarrow> string list \<Rightarrow> jsval \<Rightarrow> string \<Rightarrow> jsval" where
  "inherited owner names proto k =
     (if k \<in> set names then VFunction (owner @ ''.prototype.'' @ k)
      else Object_prototype proto k)"

definition get_property :: "json \<Rightarrow> string \<Rightarrow> error + jsval" where
  "get_property store k =
     (case store of
        JNull \<Rightarrow> Inl TypeError
      | JBool b \<Rightarrow> Inr (inherited ''Boolean'' Boolean_prototype_names (VObj []) k)
      | JNum n \<Rightarrow> Inr (inherited ''Number'' Number_prototype_names (VObj []) k)
      | JStr s \<Rightarrow>
          Inr (case array_index k of
                 Some i \<Rightarrow>
                   if i < length s then VStr [s ! i]
                   else inherited ''String'' String_prototype_names (VObj []) k
               | None \<Rightarrow>
                   if k = ''length'' then VNum (int (length s))
                   else inherited ''String'' String_prototype_names (VObj []) k)
      | JArr xs \<Rightarrow>
          Inr (case array_index k of
                 Some i \<Rightarrow>
                   if i < length xs then of_json (xs ! i)
                   else inherited ''Array'' Array_prototype_names (VArr []) k
               | None \<Rightarrow>
                   if k = ''length'' then VNum (int (length xs))
                   else inherited ''Array'' Array_prototype_names (VArr []) k)
      | JObj ps \<Rightarrow>
          Inr (case map_of ps k of
                 Some v \<Rightarrow> of_json v
               | None \<Rightarrow> Object_prototype (VObj []) k))"

subsection \<open>The hook\<close>

text \<open>
  \<open>useMemo\<close> with an empty dependency list runs the function when the component
  instance is mounted and keeps the result in the instance (\<open>memo\<close>) for later renders.
\<close>

definition useMemo :: "('s \<Rightarrow> 'a \<times> 's) \<Rightarrow> 'a option \<Rightarrow> 's \<Rightarrow> 'a \<times> 'a option \<times> 's" where
  "useMemo factory memo s =
     (case memo of
        Some kept \<Rightarrow> (kept, memo, s)
      | None \<Rightarrow> (case factory s of (v, s') \<Rightarrow> (v, Some v, s')))"

definition useBridgeData ::
  "string \<Rightarrow> jsval \<Rightarrow> runtime \<Rightarrow> json option \<Rightarrow> client \<Rightarrow> (error + jsval) \<times> json option \<times> client" where
  "useBridgeData bridgeId defaultValue rt memo c =
     (case useMemo (getHydratedStore rt) memo c of
        (store, memo', c') \<Rightarrow>
          (case get_property store bridgeId of
             Inl e \<Rightarrow> (Inl e, memo', c')
           | Inr dat \<Rightarrow> (Inr (if dat \<noteq> VUndefined then dat else defaultValue), memo', c')))"

definition createBridgeHook ::
  "string \<Rightarrow> jsval \<Rightarrow> runtime \<Rightarrow> json option \<Rightarrow> client \<Rightarrow> (error + jsval) \<times> json option \<times> client" where
  "createBridgeHook bridgeId defaultValue = useBridgeData bridgeId defaultValue"

text \<open>A sequence of hook calls, each from a newly mounted component instance.\<close>

fun hook_calls :: "runtime \<Rightarrow> client \<Rightarrow> (string \<times> jsval) list \<Rightarrow> client" where
  "hook_calls rt c [] = c"
| "hook_calls rt c (h # hs) =
     hook_calls rt (snd (snd (createBridgeHook (fst h) (snd h) rt None c))) hs"

section \<open>The context bridge\<close>

text \<open>
  \<open>createBridge\<close> makes a React context with the default value \<open>undefined\<close>.
  \<open>useContext\<close> gives the value of the nearest enclosing provider (\<open>providers\<close> lists
  the values of the enclosing \<open>BridgeProvider\<close>s, the nearest first) or the default.
\<close>

definition useContext :: "jsval list \<Rightarrow> jsval" where
  "useContext providers = (case providers of [] \<Rightarrow> VUndefined | v # _ \<Rightarrow> v)"

definition useBridge :: "jsval list \<Rightarrow> error + jsval" where
  "useBridge providers =
     (let context = useContext providers in
      if context = VUndefined then Inl (Error ''useBridge must be used within a BridgeProvider'')
      else Inr context)"

section \<open>Reading back what was written\<close>

text \<open>
  \<open>JSON.parse\<close> accepts every document of safe integers that \<open>render\<close> writes and
  returns the document with its objects rebuilt. The proof follows the grammar: numerals,
  strings, then values with their elements and members.
\<close>

lemma of_char_digit_char: "d < 10 \<Longrightarrow> (of_char (digit_char d) :: nat) = 48 + d"
  by (simp add: digit_char_def)

lemma is_digit_digit_char: "d < 10 \<Longrightarrow> is_digit (digit_char d)"
  by (simp add: is_digit_def of_char_digit_char)

lemma digit_val_digit_char: "d < 10 \<Longrightarrow> digit_val (digit_char d) = d"
  by (simp add: digit_val_def of_char_digit_char)

lemma show_nat_digits: "list_all is_digit (show_nat n)"
proof (induction n rule: show_nat.induct)
  case (1 n)
  show ?case
  proof (cases "n < 10")
    case True
    then show ?thesis by (simp add: show_nat.simps [of n] is_digit_digit_char)
  next
    case False
    with 1 show ?thesis by (simp add: show_nat.simps [of n] is_digit_digit_char)
  qed
qed

lemma show_nat_nonempty: "show_nat n \<noteq> []"
  by (subst show_nat.simps) simp

lemma read_nat_snoc: "read_nat (ds @ [c]) = 10 * read_nat ds + digit_val c"
  by (simp add: read_nat_def)

lemma read_show_nat: "read_nat (show_nat n) = n"
proof (induction n rule: show_nat.induct)
  case (1 n)
  show ?case
  proof (cases "n < 10")
    case True
    then show ?thesis by (simp add: show_nat.simps [of n] read_nat_def digit_val_digit_char)
  next
    case False
    with 1 show ?thesis
      by (simp add: show_nat.simps [of n] read_nat_snoc digit_val_digit_char)
  qed
qed

lemma hd_show_nat: "hd (show_nat n) = CHR ''0'' \<Longrightarrow> n = 0"
proof (induction n rule: show_nat.induct)
  case (1 n)
  show ?case
  proof (cases "n < 10")
    case True
    with 1(2) have "digit_char n = CHR ''0''" by (simp add: show_nat.simps [of n])
    then have "(of_char (digit_char n) :: nat) = 48" by simp
    with True show ?thesis by (simp add: of_char_digit_char)
  next
    case False
    with 1(2) have "hd (show_nat (n div 10)) = CHR ''0''"
      by (simp add: show_nat.simps [of n] show_nat_nonempty)
    with 1(1) False have "n div 10 = 0" by simp
    with False show ?thesis by simp
  qed
qed

lemma show_nat_0: "show_nat 0 = ''0''"
  by code_simp

lemma takeWhile_digits_append:
  "list_all is_digit ds \<Longrightarrow> number_end rest \<Longrightarrow> takeWhile is_digit (ds @ rest) = ds"
  by (cases rest) (auto simp: number_end_def list_all_iff takeWhile_append)

lemma dropWhile_digits_append:
  "list_all is_digit ds \<Longrightarrow> number_end rest \<Longrightarrow> dropWhile is_digit (ds @ rest) = rest"
  by (cases rest) (auto simp: number_end_def list_all_iff dropWhile_append)

lemma parse_nat_show_nat:
  assumes "number_end rest"
  shows "parse_nat (show_nat n @ rest) = Some (n, rest)"
proof (cases "show_nat n")
  case Nil
  then show ?thesis by (simp add: show_nat_nonempty)
next
  case (Cons c cs)
  have digits: "list_all is_digit (c # cs)"
    using show_nat_digits [of n] Cons by simp
  show ?thesis
  proof (cases "c = CHR ''0''")
    case True
    with Cons have "n = 0" using hd_show_nat [of n] by simp
    then show ?thesis by (simp add: show_nat_0 parse_nat_def)
  next
    case False
    have "takeWhile is_digit ((c # cs) @ rest) = c # cs"
      and "dropWhile is_digit ((c # cs) @ rest) = rest"
      using digits assms by (rule takeWhile_digits_append, rule dropWhile_digits_append)
    moreover have "is_digit c" using digits by simp
    moreover have "read_nat (c # cs) = n" using read_show_nat [of n] Cons by simp
    ultimately show ?thesis using False Cons by (simp add: parse_nat_def)
  qed
qed

lemma number_end_Cons: "number_end (d # r) \<Longrightarrow> d \<noteq> CHR ''.'' \<and> d \<noteq> CHR ''e'' \<and> d \<noteq> CHR ''E''"
  by (simp add: number_end_def)

lemma hd_show_nat_not_minus: "show_nat n = c # cs \<Longrightarrow> c \<noteq> CHR ''-''"
  using show_nat_digits [of n] by (auto simp: is_digit_def)

lemma parse_number_show_int:
  assumes "number_end rest" "safe_integer i"
  shows "parse_number (show_int i @ rest) = Some (JNum i, rest)"
proof (cases "i < 0")
  case True
  then show ?thesis
    using parse_nat_show_nat [OF assms(1), of "nat (- i)"] assms
    by (cases rest) (auto simp: parse_number_def show_int_def dest: number_end_Cons)
next
  case False
  obtain c cs where sn: "show_nat (nat i) = c # cs"
    using show_nat_nonempty [of "nat i"] by (cases "show_nat (nat i)") auto
  then have "c \<noteq> CHR ''-''" by (rule hd_show_nat_not_minus)
  with False sn show ?thesis
    using parse_nat_show_nat [OF assms(1), of "nat i"] assms
    by (cases rest) (auto simp: parse_number_def show_int_def dest: number_end_Cons)
qed

lemma hex_val_hex_char: "d < 16 \<Longrightarrow> hex_val (hex_char d) = Some d"
  by (auto simp: hex_val_def hex_char_def Let_def)

lemma hex_val_zero: "hex_val (CHR ''0'') = Some 0"
  by (simp add: hex_val_def)

lemma hex4_control:
  assumes "(of_char c :: nat) < 32"
  shows "hex4 (CHR ''0'') (CHR ''0'') (hex_char ((of_char c :: nat) div 16))
           (hex_char ((of_char c :: nat) mod 16)) = Some c"
proof -
  have "(of_char c :: nat) div 16 < 16" using assms by simp
  then have h1: "hex_val (hex_char ((of_char c :: nat) div 16)) = Some ((of_char c :: nat) div 16)"
    by (rule hex_val_hex_char)
  have h0: "hex_val (hex_char ((of_char c :: nat) mod 16)) = Some ((of_char c :: nat) mod 16)"
    by (rule hex_val_hex_char) simp
  have "char_of (16 * ((of_char c :: nat) div 16) + (of_char c :: nat) mod 16) = c"
    by simp
  with h1 h0 show ?thesis by (simp add: hex4_def hex_val_zero)
qed

lemma parse_chars_quote_char:
  "parse_chars (quote_char c @ tail) = map_option (\<lambda>r. (c # fst r, snd r)) (parse_chars tail)"
proof -
  consider (q) "c = CHR 0x22" | (b) "c = CHR 0x5C" | (bs) "c = CHR 0x08" | (ff) "c = CHR 0x0C"
    | (nl) "c = CHR 0x0A" | (cr) "c = CHR 0x0D" | (tab) "c = CHR 0x09"
    | (ctl) "c \<noteq> CHR 0x22" "c \<noteq> CHR 0x5C" "c \<noteq> CHR 0x08" "c \<noteq> CHR 0x0C" "c \<noteq> CHR 0x0A"
        "c \<noteq> CHR 0x0D" "c \<noteq> CHR 0x09" "(of_char c :: nat) < 32"
    | (plain) "c \<noteq> CHR 0x22" "c \<noteq> CHR 0x5C" "\<not> (of_char c :: nat) < 32"
    by blast
  then show ?thesis
  proof cases
    case ctl
    then show ?thesis
      using hex4_control [of c] by (simp add: quote_char_def)
  next
    case plain
    then have "quote_char c = [c]" by (auto simp: quote_char_def)
    with plain show ?thesis by simp
  qed (simp_all add: quote_char_def unescape_def)
qed

lemma parse_chars_quoted:
  "parse_chars (concat (map quote_char s) @ CHR 0x22 # rest) = Some (s, rest)"
  by (induction s) (simp_all add: parse_chars_quote_char)

lemma skip_ws_Cons: "\<not> is_ws c \<Longrightarrow> skip_ws (c # cs) = c # cs"
  by (simp add: skip_ws_def)

lemma value_start_not:
  "value_start c \<Longrightarrow> \<not> is_ws c \<and> c \<noteq> CHR '']'' \<and> c \<noteq> CHR ''}'' \<and> c \<noteq> CHR '','' \<and> c \<noteq> CHR '':''"
  by (auto simp: value_start_def is_ws_def is_digit_def)

lemma show_nat_start: "\<exists>c cs. show_nat n = c # cs \<and> is_digit c"
  using show_nat_digits [of n] show_nat_nonempty [of n] by (cases "show_nat n") auto

lemma render_start: "\<exists>c cs. render j = c # cs \<and> value_start c"
proof (cases j)
  case (JNum i)
  then show ?thesis using show_nat_start [of "nat i"] show_nat_start [of "nat (- i)"]
    by (auto simp: show_int_def value_start_def)
qed (auto simp: value_start_def quote_def)

lemma commas_render_start:
  "xs \<noteq> [] \<Longrightarrow> \<exists>c cs. commas (map render xs) @ tail = c # cs \<and> value_start c"
proof (cases xs)
  case (Cons x ys)
  obtain c cs where "render x = c # cs" "value_start c" using render_start by blast
  with Cons show ?thesis by (cases ys) auto
qed simp

lemma strip_prefix_append: "strip_prefix p (p @ rest) = Some rest"
  by (simp add: strip_prefix_def)

lemma number_end_delims:
  "number_end (CHR '']'' # r)" "number_end (CHR ''}'' # r)" "number_end (CHR '','' # r)"
  by (simp_all add: number_end_def is_digit_def)

lemma parse_elements_render:
  assumes "xs \<noteq> []"
    and "\<And>x rest. x \<in> set xs \<Longrightarrow> number_end rest \<Longrightarrow>
           parse_value (render x @ rest) = Some (canon x, rest)"
  shows "parse_elements (commas (map render xs) @ CHR '']'' # rest) = Some (map canon xs, rest)"
  using assms
proof (induction xs rule: list_nonempty_induct)
  case (single x)
  have "parse_value (render x @ CHR '']'' # rest) = Some (canon x, CHR '']'' # rest)"
    by (rule single) (simp_all add: number_end_delims)
  then show ?case
    by (subst parse_elements.simps) (simp add: skip_ws_Cons is_ws_def)
next
  case (cons x ys)
  obtain y zs where ys: "ys = y # zs" using cons.hyps by (cases ys) auto
  let ?tail = "commas (map render ys) @ CHR '']'' # rest"
  have pv: "parse_value (render x @ CHR '','' # ?tail) = Some (canon x, CHR '','' # ?tail)"
    by (rule cons.prems) (simp_all add: number_end_delims)
  have pe: "parse_elements ?tail = Some (map canon ys, rest)"
    by (rule cons.IH) (simp add: cons.prems)
  have "parse_elements ((render x @ CHR '','' # ?tail)) = Some (map canon (x # ys), rest)"
    by (subst parse_elements.simps) (simp add: pv pe skip_ws_Cons is_ws_def)
  then show ?case by (simp add: ys)
qed

lemma parse_member_step:
  assumes pv: "parse_value (render v @ tail) = Some (canon v, tail)"
  shows "parse_members (quote k @ CHR '':'' # render v @ tail) =
     (case skip_ws tail of
        [] \<Rightarrow> None
      | d # r3 \<Rightarrow>
          if d = CHR ''}'' then Some ([(k, canon v)], r3)
          else if d = CHR '','' \<and> length r3 < length (quote k @ CHR '':'' # render v @ tail) then
            map_option (\<lambda>m. ((k, canon v) # fst m, snd m)) (parse_members r3)
          else None)"
proof -
  have pc: "parse_chars (concat (map quote_char k) @ CHR 0x22 # CHR '':'' # render v @ tail)
      = Some (k, CHR '':'' # render v @ tail)"
    by (rule parse_chars_quoted)
  show ?thesis
    by (subst parse_members.simps) (simp add: quote_def skip_ws_Cons is_ws_def pc pv)
qed

lemma parse_members_render:
  assumes "ps \<noteq> []"
    and "\<And>p rest. p \<in> set ps \<Longrightarrow> number_end rest \<Longrightarrow>
           parse_value (render (snd p) @ rest) = Some (canon (snd p), rest)"
  shows "parse_members (commas (map member_text ps) @ CHR ''}'' # rest)
           = Some (map (\<lambda>p. (fst p, canon (snd p))) ps, rest)"
  using assms
proof (induction ps rule: list_nonempty_induct)
  case (single p)
  have "parse_value (render (snd p) @ CHR ''}'' # rest) = Some (canon (snd p), CHR ''}'' # rest)"
    by (rule single) (simp_all add: number_end_delims)
  from parse_member_step [OF this, of "fst p"] show ?case
    by (simp add: skip_ws_Cons is_ws_def)
next
  case (cons p qs)
  obtain q rs where qs: "qs = q # rs" using cons.hyps by (cases qs) auto
  let ?tail = "commas (map member_text qs) @ CHR ''}'' # rest"
  have pv: "parse_value (render (snd p) @ CHR '','' # ?tail) = Some (canon (snd p), CHR '','' # ?tail)"
    by (rule cons.prems) (simp_all add: number_end_delims)
  have pm: "parse_members ?tail = Some (map (\<lambda>p. (fst p, canon (snd p))) qs, rest)"
    by (rule cons.IH) (simp add: cons.prems)
  from parse_member_step [OF pv, of "fst p"] pm
  have "parse_members (member_text p @ CHR '','' # ?tail)
          = Some (map (\<lambda>p. (fst p, canon (snd p))) (p # qs), rest)"
    by (simp add: skip_ws_Cons is_ws_def)
  then show ?case by (simp add: qs)
qed

lemma commas_members_start:
  "ps \<noteq> [] \<Longrightarrow> \<exists>cs. commas (map member_text ps) @ tail = CHR 0x22 # cs"
proof (cases ps)
  case (Cons p qs)
  then show ?thesis by (cases qs) (auto simp: quote_def)
qed simp

lemma parse_value_Cons:
  "\<not> is_ws c \<Longrightarrow> parse_value (c # cs) =
     (if c = CHR ''{'' then
        (case skip_ws cs of
           [] \<Rightarrow> None
         | d # r \<Rightarrow>
             if d = CHR ''}'' then Some (JObj [], r)
             else map_option (\<lambda>m. (JObj (js_object (fst m)), snd m)) (parse_members cs))
      else if c = CHR ''['' then
        (case skip_ws cs of
           [] \<Rightarrow> None
         | d # r \<Rightarrow>
             if d = CHR '']'' then Some (JArr [], r)
             else map_option (\<lambda>m. (JArr (fst m), snd m)) (parse_elements cs))
      else if c = CHR 0x22 then map_option (\<lambda>m. (JStr (fst m), snd m)) (parse_chars cs)
      else if c = CHR ''t'' then map_option (\<lambda>r. (JBool True, r)) (strip_prefix ''rue'' cs)
      else if c = CHR ''f'' then map_option (\<lambda>r. (JBool False, r)) (strip_prefix ''alse'' cs)
      else if c = CHR ''n'' then map_option (\<lambda>r. (JNull, r)) (strip_prefix ''ull'' cs)
      else parse_number (c # cs))"
  by (subst parse_value.simps) (simp add: skip_ws_Cons)

lemma parse_value_number:
  assumes "number_end rest" "safe_integer i"
  shows "parse_value (show_int i @ rest) = Some (JNum i, rest)"
proof -
  have "\<exists>c cs. show_int i = c # cs \<and> (c = CHR ''-'' \<or> is_digit c)"
    using show_nat_start [of "nat i"] by (cases "i < 0") (auto simp: show_int_def)
  then obtain c cs where sc: "show_int i = c # cs" and c: "c = CHR ''-'' \<or> is_digit c"
    by blast
  from c have "\<not> is_ws c" "c \<noteq> CHR ''{''" "c \<noteq> CHR ''[''" "c \<noteq> CHR 0x22"
    "c \<noteq> CHR ''t''" "c \<noteq> CHR ''f''" "c \<noteq> CHR ''n''"
    by (auto simp: is_ws_def is_digit_def)
  then have "parse_value (c # cs @ rest) = parse_number (c # cs @ rest)"
    by (simp add: parse_value_Cons)
  with sc parse_number_show_int [OF assms] show ?thesis by simp
qed

theorem parse_value_render:
  "safe_json j \<Longrightarrow> number_end rest \<Longrightarrow> parse_value (render j @ rest) = Some (canon j, rest)"
proof (induction j arbitrary: rest)
  case JNull
  show ?case by (simp add: parse_value_Cons is_ws_def strip_prefix_def)
next
  case (JBool b)
  show ?case by (simp add: parse_value_Cons is_ws_def strip_prefix_def)
next
  case (JNum i)
  then show ?case by (simp add: parse_value_number)
next
  case (JStr s)
  show ?case
    using parse_chars_quoted [of s rest] by (simp add: parse_value_Cons is_ws_def quote_def)
next
  case (JArr xs)
  show ?case
  proof (cases "xs = []")
    case True
    then show ?thesis by (simp add: parse_value_Cons is_ws_def skip_ws_Cons)
  next
    case False
    let ?cs = "commas (map render xs) @ CHR '']'' # rest"
    obtain c t where ct: "?cs = c # t" "value_start c"
      using commas_render_start [OF False] by blast
    have pe: "parse_elements ?cs = Some (map canon xs, rest)"
    proof (rule parse_elements_render [OF False])
      fix x r assume x: "x \<in> set xs" and r: "number_end r"
      from x JArr.prems(1) have "safe_json x" by (simp add: list_all_iff)
      with x show "parse_value (render x @ r) = Some (canon x, r)" using r by (rule JArr.IH)
    qed
    from ct have "skip_ws ?cs = c # t" "c \<noteq> CHR '']''"
      using value_start_not [of c] by (simp_all add: skip_ws_Cons)
    with pe show ?thesis by (simp add: parse_value_Cons is_ws_def)
  qed
next
  case (JObj ps)
  show ?case
  proof (cases "ps = []")
    case True
    then show ?thesis by (simp add: parse_value_Cons is_ws_def skip_ws_Cons js_object_def own_property_order_def)
  next
    case False
    let ?cs = "commas (map member_text ps) @ CHR ''}'' # rest"
    obtain t where ct: "?cs = CHR 0x22 # t"
      using commas_members_start [OF False] by blast
    have pm: "parse_members ?cs = Some (map (\<lambda>p. (fst p, canon (snd p))) ps, rest)"
    proof (rule parse_members_render [OF False])
      fix p r assume p: "p \<in> set ps" and r: "number_end r"
      have "snd p \<in> Basic_BNFs.snds p" by (cases p) simp
      moreover from p JObj.prems(1) have "safe_json (snd p)" by (simp add: list_all_iff)
      ultimately show "parse_value (render (snd p) @ r) = Some (canon (snd p), r)"
        using r by (rule JObj.IH [OF p])
    qed
    from ct have "skip_ws ?cs = CHR 0x22 # t"
      by (simp add: skip_ws_Cons is_ws_def)
    with pm show ?thesis by (simp add: parse_value_Cons is_ws_def)
  qed
qed

theorem JSON_parse_render: "safe_json j \<Longrightarrow> JSON_parse (render j) = Some (canon j)"
  using parse_value_render [of j "[]"]
  by (simp add: JSON_parse_def number_end_def skip_ws_def)

section \<open>The parser and the grammar\<close>

text \<open>
  Whatever the parser reads is in the grammar, so a text outside the grammar is rejected
  by the parser too. The grammar consumes text at every step.
\<close>

lemma hex4_Some: "hex4 a b c d = Some ch \<Longrightarrow>
    hex_val a \<noteq> None \<and> hex_val b \<noteq> None \<and> hex_val c \<noteq> None \<and> hex_val d \<noteq> None"
  by (cases "hex_val a"; cases "hex_val b"; cases "hex_val c"; cases "hex_val d")
     (simp_all add: hex4_def)

lemma parse_chars_syntax: "parse_chars s = Some (k, r) \<Longrightarrow> syntax_chars s = Some r"
proof (induction s arbitrary: k r rule: parse_chars.induct)
  case 1
  then show ?case by simp
next
  case (2 c cs)
  show ?case
  proof (cases "c = CHR 0x22")
    case True
    with 2(4) show ?thesis by simp
  next
    case nq: False
    show ?thesis
    proof (cases "c = CHR 0x5C")
      case True
      show ?thesis
      proof (cases cs)
        case Nil
        with 2(4) nq True show ?thesis by simp
      next
        case (Cons e cs')
        show ?thesis
        proof (cases "e = CHR ''u''")
          case u: True
          from 2(4) nq True Cons u obtain h3 h2 h1 h0 rest ch k' where
            cs': "cs' = h3 # h2 # h1 # h0 # rest" and h: "hex4 h3 h2 h1 h0 = Some ch"
            and p: "parse_chars rest = Some (k', r)"
            by (auto split: list.splits option.splits)
          from 2(1) [OF nq True Cons u cs' refl refl refl h p] hex4_Some [OF h] nq True Cons u cs'
          show ?thesis by simp
        next
          case nu: False
          from 2(4) nq True Cons nu obtain ch k' where
            ue: "unescape e = Some ch" and p: "parse_chars cs' = Some (k', r)"
            by (auto split: option.splits)
          from 2(2) [OF nq True Cons nu ue p] nq True Cons nu ue
          show ?thesis by simp
        qed
      qed
    next
      case nb: False
      from 2(4) nq nb obtain k' where ok: "\<not> (of_char c :: nat) < 32"
        and p: "parse_chars cs = Some (k', r)"
        by (auto split: if_splits)
      from 2(3) [OF nq nb ok p] nq nb ok show ?thesis by simp
    qed
  qed
qed

lemma parse_nat_syntax: "parse_nat s = Some (n, r) \<Longrightarrow> syntax_int s = Some r"
  by (cases s) (auto simp: parse_nat_def syntax_int_def split: if_splits)

lemma parse_number_syntax:
  assumes "parse_number s = Some (j, r)"
  shows "syntax_number s = Some r"
proof -
  define pre where "pre =
    (case s of
       [] \<Rightarrow> None
     | c # cs \<Rightarrow>
         if c = CHR ''-'' then map_option (\<lambda>r. (- int (fst r), snd r)) (parse_nat cs)
         else map_option (\<lambda>r. (int (fst r), snd r)) (parse_nat s))"
  have "parse_number s =
    (case pre of
       None \<Rightarrow> None
     | Some (n, rest) \<Rightarrow>
         if \<not> safe_integer n then None
         else
           (case rest of
              [] \<Rightarrow> Some (JNum n, rest)
            | d # _ \<Rightarrow>
                if d = CHR ''.'' \<or> d = CHR ''e'' \<or> d = CHR ''E'' then None
                else Some (JNum n, rest)))"
    by (simp add: parse_number_def pre_def)
  with assms obtain n where pre: "pre = Some (n, r)"
    and nd: "case r of [] \<Rightarrow> True | d # _ \<Rightarrow> d \<noteq> CHR ''.'' \<and> d \<noteq> CHR ''e'' \<and> d \<noteq> CHR ''E''"
    by (auto split: option.splits if_splits list.splits)
  from pre have "(case s of
             [] \<Rightarrow> None
           | c # cs \<Rightarrow> if c = CHR ''-'' then syntax_int cs else syntax_int s) = Some r"
    unfolding pre_def by (cases s) (auto split: if_splits dest: parse_nat_syntax)
  moreover have "syntax_fraction r = Some r"
    using nd by (cases r) (simp_all add: syntax_fraction_def)
  moreover have "syntax_exponent r = Some r"
    using nd by (cases r) (simp_all add: syntax_exponent_def)
  ultimately show ?thesis by (simp add: syntax_number_def)
qed

lemma parse_syntax:
  "parse_value s = Some (j, r) \<Longrightarrow> syntax_value s = Some r"
  "parse_elements s = Some (js, r) \<Longrightarrow> syntax_elements s = Some r"
  "parse_members s = Some (ms, r) \<Longrightarrow> syntax_members s = Some r"
proof (induction s and s and s arbitrary: j r and js r and ms r
    rule: parse_value_parse_elements_parse_members.induct)
  case (1 s)
  from 1(3) obtain c cs where sk: "skip_ws s = c # cs"
    by (subst (asm) parse_value.simps) (auto split: list.splits)
  show ?case
  proof (cases "c = CHR ''{''")
    case True
    from 1(3) sk True obtain d r0 where sk2: "skip_ws cs = d # r0"
      by (subst (asm) parse_value.simps) (auto split: list.splits)
    show ?thesis
    proof (cases "d = CHR ''}''")
      case close: True
      with 1(3) sk True sk2 have "r = r0"
        by (subst (asm) parse_value.simps) simp
      with sk True sk2 close show ?thesis
        by (subst syntax_value.simps) simp
    next
      case False
      with 1(3) sk True sk2 obtain m where "parse_members cs = Some (m, r)"
        by (subst (asm) parse_value.simps) auto
      then have "syntax_members cs = Some r"
        by (rule 1(1) [OF sk True sk2 False])
      with sk True sk2 False show ?thesis
        by (subst syntax_value.simps) simp
    qed
  next
    case nb: False
    show ?thesis
    proof (cases "c = CHR ''[''")
      case True
      from 1(3) sk nb True obtain d r0 where sk2: "skip_ws cs = d # r0"
        by (subst (asm) parse_value.simps) (auto split: list.splits)
      show ?thesis
      proof (cases "d = CHR '']''")
        case close: True
        with 1(3) sk nb True sk2 have "r = r0"
          by (subst (asm) parse_value.simps) simp
        with sk nb True sk2 close show ?thesis
          by (subst syntax_value.simps) simp
      next
        case False
        with 1(3) sk nb True sk2 obtain m where "parse_elements cs = Some (m, r)"
          by (subst (asm) parse_value.simps) auto
        then have "syntax_elements cs = Some r"
          by (rule 1(2) [OF sk nb True sk2 False])
        with sk nb True sk2 False show ?thesis
          by (subst syntax_value.simps) simp
      qed
    next
      case na: False
      from 1(3) sk nb na have
        "(if c = CHR 0x22 then map_option (\<lambda>m. (JStr (fst m), snd m)) (parse_chars cs)
          else if c = CHR ''t'' then map_option (\<lambda>r. (JBool True, r)) (strip_prefix ''rue'' cs)
          else if c = CHR ''f'' then map_option (\<lambda>r. (JBool False, r)) (strip_prefix ''alse'' cs)
          else if c = CHR ''n'' then map_option (\<lambda>r. (JNull, r)) (strip_prefix ''ull'' cs)
          else parse_number (c # cs)) = Some (j, r)"
        by (subst (asm) parse_value.simps) simp
      then have
        "(if c = CHR 0x22 then syntax_chars cs
          else if c = CHR ''t'' then strip_prefix ''rue'' cs
          else if c = CHR ''f'' then strip_prefix ''alse'' cs
          else if c = CHR ''n'' then strip_prefix ''ull'' cs
          else syntax_number (c # cs)) = Some r"
        by (auto split: if_splits dest: parse_chars_syntax parse_number_syntax)
      with sk nb na show ?thesis
        by (subst syntax_value.simps) simp
    qed
  qed
next
  case (2 s)
  from 2(3) obtain v r1 where pv: "parse_value s = Some (v, r1)"
    by (subst (asm) parse_elements.simps) (auto split: option.splits)
  then have sv: "syntax_value s = Some r1" by (rule 2(1))
  from 2(3) pv obtain d r2 where sk: "skip_ws r1 = d # r2"
    by (subst (asm) parse_elements.simps) (auto split: list.splits)
  show ?case
  proof (cases "d = CHR '']''")
    case True
    with 2(3) pv sk have "r = r2"
      by (subst (asm) parse_elements.simps) simp
    with sv sk True show ?thesis
      by (subst syntax_elements.simps) simp
  next
    case False
    with 2(3) pv sk obtain m where c: "d = CHR '','' \<and> length r2 < length s"
      and pe: "parse_elements r2 = Some (m, r)"
      by (subst (asm) parse_elements.simps) (auto split: if_splits)
    from pe have "syntax_elements r2 = Some r"
      by (rule 2(2) [OF pv refl sk False c])
    with sv sk False c show ?thesis
      by (subst syntax_elements.simps) simp
  qed
next
  case (3 s)
  from 3(3) obtain q cs where sk: "skip_ws s = q # cs"
    by (subst (asm) parse_members.simps) (auto split: list.splits)
  from 3(3) sk have q: "\<not> q \<noteq> CHR 0x22"
    by (subst (asm) parse_members.simps) (auto split: if_splits)
  from 3(3) sk q obtain k r1 where pc: "parse_chars cs = Some (k, r1)"
    by (subst (asm) parse_members.simps) (auto split: option.splits)
  then have sc: "syntax_chars cs = Some r1" by (rule parse_chars_syntax)
  from 3(3) sk q pc obtain c r2 where sk1: "skip_ws r1 = c # r2"
    by (subst (asm) parse_members.simps) (auto split: list.splits)
  from 3(3) sk q pc sk1 have colon: "c = CHR '':'' \<and> length r2 < length s"
    by (subst (asm) parse_members.simps) (auto split: if_splits)
  from 3(3) sk q pc sk1 colon obtain v r3 where pv: "parse_value r2 = Some (v, r3)"
    by (subst (asm) parse_members.simps) (auto split: option.splits)
  then have sv: "syntax_value r2 = Some r3"
    by (rule 3(1) [OF sk q pc refl sk1 colon])
  from 3(3) sk q pc sk1 colon pv obtain d r4 where sk2: "skip_ws r3 = d # r4"
    by (subst (asm) parse_members.simps) (auto split: list.splits)
  show ?case
  proof (cases "d = CHR ''}''")
    case True
    with 3(3) sk q pc sk1 colon pv sk2 have "r = r4"
      by (subst (asm) parse_members.simps) simp
    with sk q sc sk1 colon sv sk2 True show ?thesis
      by (subst syntax_members.simps) simp
  next
    case False
    with 3(3) sk q pc sk1 colon pv sk2 obtain m where c: "d = CHR '','' \<and> length r4 < length s"
      and pm: "parse_members r4 = Some (m, r)"
      by (subst (asm) parse_members.simps) (auto split: if_splits)
    from pm have "syntax_members r4 = Some r"
      by (rule 3(2) [OF sk q pc refl sk1 colon pv refl sk2 False c])
    with sk q sc sk1 colon sv sk2 False c show ?thesis
      by (subst syntax_members.simps) simp
  qed
qed

lemma JSON_parse_syntax: "JSON_parse text = Some j \<Longrightarrow> JSON_syntax text"
  by (auto simp: JSON_parse_def JSON_syntax_def split: option.splits if_splits dest: parse_syntax(1))

lemma syntax_chars_shorter: "syntax_chars s = Some r \<Longrightarrow> length r < length s"
proof (induction s arbitrary: r rule: length_induct)
  case (1 s)
  show ?case
  proof (cases s)
    case Nil
    with 1(2) show ?thesis by simp
  next
    case (Cons c cs)
    show ?thesis
    proof (cases "c = CHR 0x22")
      case True
      with 1(2) Cons show ?thesis by simp
    next
      case nq: False
      show ?thesis
      proof (cases "c = CHR 0x5C")
        case True
        from 1(2) Cons nq True obtain e cs' where cs: "cs = e # cs'"
          by (cases cs) auto
        show ?thesis
        proof (cases "e = CHR ''u''")
          case u: True
          from 1(2) Cons nq True cs u obtain h3 h2 h1 h0 rest where
            cs': "cs' = h3 # h2 # h1 # h0 # rest" and p: "syntax_chars rest = Some r"
            by (auto split: list.splits if_splits)
          from 1(1) p have "length r < length rest" by (simp add: Cons cs cs')
          then show ?thesis by (simp add: Cons cs cs')
        next
          case False
          with 1(2) Cons nq True cs have p: "syntax_chars cs' = Some r"
            by (auto split: option.splits)
          from 1(1) p have "length r < length cs'" by (simp add: Cons cs)
          then show ?thesis by (simp add: Cons cs)
        qed
      next
        case False
        with 1(2) Cons nq have p: "syntax_chars cs = Some r"
          by (auto split: if_splits)
        from 1(1) p have "length r < length cs" by (simp add: Cons)
        then show ?thesis by (simp add: Cons)
      qed
    qed
  qed
qed

lemma syntax_digits_shorter: "syntax_digits s = Some r \<Longrightarrow> length r < length s"
  using length_dropWhile_le [of is_digit "tl s"]
  by (cases s) (auto simp: syntax_digits_def split: if_splits)

lemma syntax_int_shorter: "syntax_int s = Some r \<Longrightarrow> length r < length s"
  using length_dropWhile_le [of is_digit "tl s"]
  by (cases s) (auto simp: syntax_int_def split: if_splits)

lemma syntax_fraction_shorter: "syntax_fraction s = Some r \<Longrightarrow> length r \<le> length s"
  by (cases s) (auto simp: syntax_fraction_def split: if_splits dest: syntax_digits_shorter)

lemma syntax_exponent_shorter: "syntax_exponent s = Some r \<Longrightarrow> length r \<le> length s"
  by (cases s) (auto simp: syntax_exponent_def split: if_splits list.splits dest: syntax_digits_shorter)

lemma syntax_number_shorter:
  assumes "syntax_number s = Some r"
  shows "length r < length s"
proof -
  from assms obtain r1 r2 where
    a: "(case s of [] \<Rightarrow> None | c # cs \<Rightarrow> if c = CHR ''-'' then syntax_int cs else syntax_int s) = Some r1"
    and b: "syntax_fraction r1 = Some r2" and c: "syntax_exponent r2 = Some r"
    unfolding syntax_number_def by (auto split: option.splits)
  from a have "length r1 < length s"
    by (cases s) (auto split: if_splits dest: syntax_int_shorter)
  with syntax_fraction_shorter [OF b] syntax_exponent_shorter [OF c] show ?thesis by simp
qed

lemma strip_prefix_shorter: "strip_prefix p s = Some r \<Longrightarrow> length r \<le> length s"
  by (auto simp: strip_prefix_def split: if_splits)

lemma syntax_shorter:
  "syntax_value s = Some r \<Longrightarrow> length r < length s"
  "syntax_elements s = Some r \<Longrightarrow> length r < length s"
  "syntax_members s = Some r \<Longrightarrow> length r < length s"
proof (induction s and s and s arbitrary: r and r and r
    rule: syntax_value_syntax_elements_syntax_members.induct)
  case (1 s)
  from 1(3) obtain c cs where sk: "skip_ws s = c # cs"
    by (subst (asm) syntax_value.simps) (auto split: list.splits)
  then have len: "length cs < length s" by (rule skip_ws_Cons_length)
  show ?case
  proof (cases "c = CHR ''{''")
    case True
    from 1(3) sk True obtain d r0 where sk2: "skip_ws cs = d # r0"
      by (subst (asm) syntax_value.simps) (auto split: list.splits)
    show ?thesis
    proof (cases "d = CHR ''}''")
      case close: True
      with 1(3) sk True sk2 have "r = r0"
        by (subst (asm) syntax_value.simps) simp
      with skip_ws_Cons_length [OF sk2] len show ?thesis by simp
    next
      case False
      with 1(3) sk True sk2 have "syntax_members cs = Some r"
        by (subst (asm) syntax_value.simps) auto
      then have "length r < length cs"
        by (rule 1(1) [OF sk True sk2 False])
      with len show ?thesis by simp
    qed
  next
    case nb: False
    show ?thesis
    proof (cases "c = CHR ''[''")
      case True
      from 1(3) sk nb True obtain d r0 where sk2: "skip_ws cs = d # r0"
        by (subst (asm) syntax_value.simps) (auto split: list.splits)
      show ?thesis
      proof (cases "d = CHR '']''")
        case close: True
        with 1(3) sk nb True sk2 have "r = r0"
          by (subst (asm) syntax_value.simps) simp
        with skip_ws_Cons_length [OF sk2] len show ?thesis by simp
      next
        case False
        with 1(3) sk nb True sk2 have "syntax_elements cs = Some r"
          by (subst (asm) syntax_value.simps) auto
        then have "length r < length cs"
          by (rule 1(2) [OF sk nb True sk2 False])
        with len show ?thesis by simp
      qed
    next
      case na: False
      from 1(3) sk nb na have
        "(if c = CHR 0x22 then syntax_chars cs
          else if c = CHR ''t'' then strip_prefix ''rue'' cs
          else if c = CHR ''f'' then strip_prefix ''alse'' cs
          else if c = CHR ''n'' then strip_prefix ''ull'' cs
          else syntax_number (c # cs)) = Some r"
        by (subst (asm) syntax_value.simps) simp
      then have "length r \<le> length cs"
        by (auto split: if_splits
            dest: syntax_chars_shorter strip_prefix_shorter syntax_number_shorter)
      with len show ?thesis by simp
    qed
  qed
next
  case (2 s)
  from 2(3) obtain r1 where sv: "syntax_value s = Some r1"
    by (subst (asm) syntax_elements.simps) (auto split: option.splits)
  then have l1: "length r1 < length s" by (rule 2(1))
  from 2(3) sv obtain d r2 where sk: "skip_ws r1 = d # r2"
    by (subst (asm) syntax_elements.simps) (auto split: list.splits)
  then have l2: "length r2 < length r1" by (rule skip_ws_Cons_length)
  show ?case
  proof (cases "d = CHR '']''")
    case True
    with 2(3) sv sk have "r = r2"
      by (subst (asm) syntax_elements.simps) simp
    with l1 l2 show ?thesis by simp
  next
    case False
    with 2(3) sv sk have c: "d = CHR '','' \<and> length r2 < length s"
      and pe: "syntax_elements r2 = Some r"
      by (subst (asm) syntax_elements.simps; auto split: if_splits)+
    from pe have "length r < length r2"
      by (rule 2(2) [OF sv sk False c])
    with l1 l2 show ?thesis by simp
  qed
next
  case (3 s)
  from 3(3) obtain q cs where sk: "skip_ws s = q # cs"
    by (subst (asm) syntax_members.simps) (auto split: list.splits)
  from 3(3) sk have q: "\<not> q \<noteq> CHR 0x22"
    by (subst (asm) syntax_members.simps) (auto split: if_splits)
  from 3(3) sk q obtain r1 where sc: "syntax_chars cs = Some r1"
    by (subst (asm) syntax_members.simps) (auto split: option.splits)
  from 3(3) sk q sc obtain c r2 where sk1: "skip_ws r1 = c # r2"
    by (subst (asm) syntax_members.simps) (auto split: list.splits)
  from 3(3) sk q sc sk1 have colon: "c = CHR '':'' \<and> length r2 < length s"
    by (subst (asm) syntax_members.simps) (auto split: if_splits)
  from 3(3) sk q sc sk1 colon obtain r3 where sv: "syntax_value r2 = Some r3"
    by (subst (asm) syntax_members.simps) (auto split: option.splits)
  then have l3: "length r3 < length r2"
    by (rule 3(1) [OF sk q sc sk1 colon])
  from 3(3) sk q sc sk1 colon sv obtain d r4 where sk2: "skip_ws r3 = d # r4"
    by (subst (asm) syntax_members.simps) (auto split: list.splits)
  then have l4: "length r4 < length r3" by (rule skip_ws_Cons_length)
  show ?case
  proof (cases "d = CHR ''}''")
    case True
    with 3(3) sk q sc sk1 colon sv sk2 have "r = r4"
      by (subst (asm) syntax_members.simps) simp
    with colon l3 l4 show ?thesis by simp
  next
    case False
    with 3(3) sk q sc sk1 colon sv sk2 have c: "d = CHR '','' \<and> length r4 < length s"
      and pm: "syntax_members r4 = Some r"
      by (subst (asm) syntax_members.simps; auto split: if_splits)+
    from pm have "length r < length r4"
      by (rule 3(2) [OF sk q sc sk1 colon sv sk2 False c])
    with colon l3 l4 show ?thesis by simp
  qed
qed

text \<open>The length tests in the grammar never fail.\<close>

lemma syntax_elements_unfold:
  "syntax_elements s =
     (case syntax_value s of
        None \<Rightarrow> None
      | Some r \<Rightarrow>
          (case skip_ws r of
             [] \<Rightarrow> None
           | d # r' \<Rightarrow>
               if d = CHR '']'' then Some r'
               else if d = CHR '','' then syntax_elements r'
               else None))"
proof (cases "syntax_value s")
  case None
  then show ?thesis by (subst syntax_elements.simps) simp
next
  case (Some r)
  show ?thesis
  proof (cases "skip_ws r")
    case Nil
    with Some show ?thesis by (subst syntax_elements.simps) simp
  next
    case (Cons d r')
    have "length r' < length s"
      using syntax_shorter(1) [OF Some] skip_ws_Cons_length [OF Cons] by simp
    with Some Cons show ?thesis by (subst syntax_elements.simps) simp
  qed
qed

lemma syntax_members_unfold:
  "syntax_members s =
     (case skip_ws s of
        [] \<Rightarrow> None
      | q # cs \<Rightarrow>
          if q \<noteq> CHR 0x22 then None
          else
            (case syntax_chars cs of
               None \<Rightarrow> None
             | Some r \<Rightarrow>
                 (case skip_ws r of
                    [] \<Rightarrow> None
                  | c # r1 \<Rightarrow>
                      if c = CHR '':'' then
                        (case syntax_value r1 of
                           None \<Rightarrow> None
                         | Some r2 \<Rightarrow>
                             (case skip_ws r2 of
                                [] \<Rightarrow> None
                              | d # r3 \<Rightarrow>
                                  if d = CHR ''}'' then Some r3
                                  else if d = CHR '','' then syntax_members r3
                                  else None))
                      else None)))"
proof (cases "skip_ws s")
  case Nil
  then show ?thesis by (subst syntax_members.simps) simp
next
  case sk: (Cons q cs)
  then have l0: "length cs < length s" by (rule skip_ws_Cons_length)
  show ?thesis
  proof (cases "syntax_chars cs")
    case None
    with sk show ?thesis by (subst syntax_members.simps) simp
  next
    case sc: (Some r)
    then have l1: "length r < length cs" by (rule syntax_chars_shorter)
    show ?thesis
    proof (cases "skip_ws r")
      case Nil
      with sk sc show ?thesis by (subst syntax_members.simps) simp
    next
      case sk1: (Cons c r1)
      then have l2: "length r1 < length r" by (rule skip_ws_Cons_length)
      show ?thesis
      proof (cases "syntax_value r1")
        case None
        with sk sc sk1 show ?thesis by (subst syntax_members.simps) simp
      next
        case sv: (Some r2)
        then have l3: "length r2 < length r1" by (rule syntax_shorter(1))
        show ?thesis
        proof (cases "skip_ws r2")
          case Nil
          with sk sc sk1 sv show ?thesis by (subst syntax_members.simps) simp
        next
          case sk2: (Cons d r3)
          then have "length r3 < length r2" by (rule skip_ws_Cons_length)
          with l0 l1 l2 l3 have "length r3 < length s" "length r1 < length s" by simp_all
          with sk sc sk1 sv sk2 show ?thesis by (subst syntax_members.simps) simp
        qed
      qed
    qed
  qed
qed

section \<open>The request store\<close>

lemma cache_ok_init: "cache_ok server_init"
  by (simp add: cache_ok_def server_init_def)

lemma getRequestStore_kept:
  "request_cache s r = Some m \<Longrightarrow> getRequestStore r s = (m, s)"
  by (simp add: getRequestStore_def cache_def)

lemma getRequestStore_new:
  "request_cache s r = None \<Longrightarrow>
   getRequestStore r s =
     (length (maps s), s\<lparr>maps := maps s @ [[]], request_cache := (request_cache s)(r \<mapsto> length (maps s))\<rparr>)"
  by (simp add: getRequestStore_def cache_def new_Map_def)

lemma getRequestStore_cached:
  "getRequestStore r s = (m, s1) \<Longrightarrow> request_cache s1 r = Some m"
  by (auto simp: getRequestStore_def cache_def new_Map_def split: option.splits)

lemma getRequestStore_reads:
  "getRequestStore r s = (m, s1) \<Longrightarrow> maps s1 ! m = request_store r s"
  by (auto simp: getRequestStore_def cache_def new_Map_def request_store_def split: option.splits)

lemma getRequestStore_again:
  "getRequestStore r s = (m, s1) \<Longrightarrow> getRequestStore r s1 = (m, s1)"
  by (rule getRequestStore_kept) (rule getRequestStore_cached)

lemma cache_ok_bound: "cache_ok s \<Longrightarrow> request_cache s r = Some m \<Longrightarrow> m < length (maps s)"
  by (simp add: cache_ok_def)

lemma cache_ok_inj:
  "cache_ok s \<Longrightarrow> request_cache s r = Some m \<Longrightarrow> request_cache s r' = Some m \<Longrightarrow> r' = r"
  by (simp add: cache_ok_def)

lemma getRequestStore_cache_ok:
  assumes "cache_ok s" "getRequestStore r s = (m, s1)"
  shows "cache_ok s1"
proof (cases "request_cache s r")
  case None
  with assms have s1: "s1 = s\<lparr>maps := maps s @ [[]],
      request_cache := (request_cache s)(r \<mapsto> length (maps s))\<rparr>"
    by (auto simp: getRequestStore_new)
  show ?thesis
    unfolding cache_ok_def
  proof (intro allI impI conjI)
    fix q a assume q: "request_cache s1 q = Some a"
    show "a < length (maps s1)"
      using q cache_ok_bound [OF assms(1), of q a] by (auto simp: s1 split: if_splits)
    fix q' assume q': "request_cache s1 q' = Some a"
    show "q' = q"
      using q q' cache_ok_bound [OF assms(1), of q a] cache_ok_bound [OF assms(1), of q' a]
        cache_ok_inj [OF assms(1), of q a q']
      by (auto simp: s1 split: if_splits)
  qed
next
  case (Some a)
  with assms getRequestStore_kept [of s r a] show ?thesis by simp
qed

lemma getRequestStore_store:
  assumes "cache_ok s" "getRequestStore r s = (m, s1)"
  shows "request_store r' s1 = request_store r' s"
proof (cases "request_cache s r")
  case None
  with assms have s1: "s1 = s\<lparr>maps := maps s @ [[]],
      request_cache := (request_cache s)(r \<mapsto> length (maps s))\<rparr>"
    by (auto simp: getRequestStore_new)
  show ?thesis
  proof (cases "r' = r")
    case True
    with None show ?thesis by (simp add: s1 request_store_def)
  next
    case False
    show ?thesis
    proof (cases "request_cache s r'")
      case None
      with False show ?thesis by (simp add: s1 request_store_def)
    next
      case (Some m')
      with assms(1) have "m' < length (maps s)" by (auto simp: cache_ok_def)
      with Some False show ?thesis by (simp add: s1 request_store_def nth_append)
    qed
  qed
next
  case (Some a)
  with assms getRequestStore_kept [of s r a] show ?thesis by simp
qed

lemma getRequestStore_other:
  "getRequestStore r s = (m, s1) \<Longrightarrow> r' \<noteq> r \<Longrightarrow> request_cache s1 r' = request_cache s r'"
  by (auto simp: getRequestStore_def cache_def new_Map_def split: option.splits)

lemma getRequestStore_stable:
  "getRequestStore r s = (m, s1) \<Longrightarrow> request_cache s r' = Some m' \<Longrightarrow> request_cache s1 r' = Some m'"
  by (auto simp: getRequestStore_def cache_def new_Map_def split: option.splits)

lemma request_cache_console_log [simp]: "request_cache (console_log msg s) = request_cache s"
  by (simp add: console_log_def)

lemma maps_console_log [simp]: "maps (console_log msg s) = maps s"
  by (simp add: console_log_def)

lemma request_store_console_log [simp]: "request_store r (console_log msg s) = request_store r s"
  by (simp add: request_store_def cong: option.case_cong)

lemma cache_ok_console_log [simp]: "cache_ok (console_log msg s) = cache_ok s"
  by (simp add: cache_ok_def)

lemma request_cache_Map_set [simp]: "request_cache (Map_set m k v s) = request_cache s"
  by (simp add: Map_set_def)

lemma cache_ok_Map_set [simp]: "cache_ok (Map_set m k v s) = cache_ok s"
  by (simp add: cache_ok_def Map_set_def)

lemma request_store_Map_set:
  assumes "cache_ok s" "request_cache s r = Some m"
  shows "request_store r' (Map_set m k v s) =
           (if r' = r then AList.update k v (request_store r s) else request_store r' s)"
proof (cases "request_cache s r'")
  case None
  with assms show ?thesis by (auto simp: request_store_def)
next
  case (Some m')
  with assms have "m < length (maps s)" "m' = m \<longleftrightarrow> r' = r"
    by (auto simp: cache_ok_def)
  with Some assms show ?thesis
    by (auto simp: request_store_def Map_set_def)
qed

lemma warn_if_lost_simps [simp]:
  "request_cache (warn_if_lost b d e s) = request_cache s"
  "maps (warn_if_lost b d e s) = maps s"
  "request_store r (warn_if_lost b d e s) = request_store r s"
  "cache_ok (warn_if_lost b d e s) = cache_ok s"
  by (simp_all add: warn_if_lost_def)

lemma Provider_cache_ok:
  assumes "cache_ok s"
  shows "cache_ok (createBridgeProvider k v e r s)"
proof -
  obtain m s1 where g: "getRequestStore r (warn_if_lost k v e s) = (m, s1)" by force
  with assms have "cache_ok s1" using getRequestStore_cache_ok [of "warn_if_lost k v e s" r m s1] by simp
  with g show ?thesis by (simp add: createBridgeProvider_def)
qed

lemma Provider_store:
  assumes "cache_ok s"
  shows "request_store r' (createBridgeProvider k v e r s) =
           (if r' = r then AList.update k v (request_store r s) else request_store r' s)"
proof -
  obtain m s1 where g: "getRequestStore r (warn_if_lost k v e s) = (m, s1)" by force
  from assms have ok: "cache_ok (warn_if_lost k v e s)" by simp
  have ok1: "cache_ok s1" using getRequestStore_cache_ok [OF ok g] .
  have c1: "request_cache s1 r = Some m" using g by (rule getRequestStore_cached)
  have st: "\<And>q. request_store q s1 = request_store q s"
    using getRequestStore_store [OF ok g] by simp
  show ?thesis
    using request_store_Map_set [OF ok1 c1, of r' k v] g
    by (simp add: createBridgeProvider_def st)
qed

lemma Provider_stable:
  "request_cache s r' = Some m' \<Longrightarrow> request_cache (createBridgeProvider k v e r s) r' = Some m'"
proof -
  assume a: "request_cache s r' = Some m'"
  obtain m s1 where g: "getRequestStore r (warn_if_lost k v e s) = (m, s1)" by force
  from a have "request_cache (warn_if_lost k v e s) r' = Some m'" by simp
  with g have "request_cache s1 r' = Some m'" by (rule getRequestStore_stable)
  with g show ?thesis by (simp add: createBridgeProvider_def)
qed

lemma Serializer_state:
  "\<exists>s1 msgs. getRequestStore r s = (fst (getRequestStore r s), s1)
      \<and> snd (BridgeSerializer e r s) = s1\<lparr>server_console := server_console s1 @ msgs\<rparr>"
proof -
  obtain m s1 where g: "getRequestStore r s = (m, s1)" by force
  have same: "s1 = s1\<lparr>server_console := server_console s1 @ []\<rparr>" by simp
  have "\<exists>msgs. snd (BridgeSerializer e r s) = s1\<lparr>server_console := server_console s1 @ msgs\<rparr>"
  proof (cases "Map_size m s1 = 0")
    case True
    then have "snd (BridgeSerializer e r s) = s1" by (simp add: BridgeSerializer_def g)
    with same show ?thesis by metis
  next
    case False
    show ?thesis
    proof (cases "JSON_stringify (Object_fromEntries (maps s1 ! m))")
      case (Inl err)
      with False have "snd (BridgeSerializer e r s) =
          s1\<lparr>server_console := server_console s1 @
            [if e = ''development'' then ''ContextBridge Error: Unable to serialize data.''
             else ''ContextBridge: Serialization error'']\<rparr>"
        by (simp add: BridgeSerializer_def g console_log_def)
      then show ?thesis by blast
    next
      case (Inr t)
      with False have "snd (BridgeSerializer e r s) = s1" by (simp add: BridgeSerializer_def g)
      with same show ?thesis by metis
    qed
  qed
  with g show ?thesis by auto
qed

lemma Serializer_cache_ok:
  assumes "cache_ok s"
  shows "cache_ok (snd (BridgeSerializer e r s))"
proof -
  obtain s1 msgs where g: "getRequestStore r s = (fst (getRequestStore r s), s1)"
    and e: "snd (BridgeSerializer e r s) = s1\<lparr>server_console := server_console s1 @ msgs\<rparr>"
    using Serializer_state by blast
  have "cache_ok s1" using getRequestStore_cache_ok [OF assms g] .
  then show ?thesis by (simp add: e cache_ok_def)
qed

lemma Serializer_store:
  assumes "cache_ok s"
  shows "request_store r' (snd (BridgeSerializer e r s)) = request_store r' s"
proof -
  obtain s1 msgs where g: "getRequestStore r s = (fst (getRequestStore r s), s1)"
    and e: "snd (BridgeSerializer e r s) = s1\<lparr>server_console := server_console s1 @ msgs\<rparr>"
    using Serializer_state by blast
  have "request_store r' s1 = request_store r' s" using getRequestStore_store [OF assms g] .
  then show ?thesis by (simp add: e request_store_def cong: option.case_cong)
qed

lemma Serializer_stable:
  assumes "request_cache s r' = Some m'"
  shows "request_cache (snd (BridgeSerializer e r s)) r' = Some m'"
proof -
  obtain s1 msgs where g: "getRequestStore r s = (fst (getRequestStore r s), s1)"
    and e: "snd (BridgeSerializer e r s) = s1\<lparr>server_console := server_console s1 @ msgs\<rparr>"
    using Serializer_state by blast
  have "request_cache s1 r' = Some m'" using g assms by (rule getRequestStore_stable)
  then show ?thesis by (simp add: e)
qed

lemma render_step_cache_ok: "cache_ok s \<Longrightarrow> cache_ok (render_step e s x)"
  by (cases x) (simp_all add: Provider_cache_ok Serializer_cache_ok)

lemma render_step_stable:
  "request_cache s r = Some m \<Longrightarrow> request_cache (render_step e s x) r = Some m"
  by (cases x) (simp_all add: Provider_stable Serializer_stable)

lemma render_step_store:
  "cache_ok s \<Longrightarrow> request_store r (render_step e s x) = set_all (request_store r s) (provided r [x])"
  by (cases x) (simp_all add: Provider_store Serializer_store set_all_def)

lemma render_all_cache_ok: "cache_ok s \<Longrightarrow> cache_ok (render_all e s xs)"
  unfolding render_all_def by (induction xs arbitrary: s) (simp_all add: render_step_cache_ok)

lemma render_all_stable:
  "request_cache s r = Some m \<Longrightarrow> request_cache (render_all e s xs) r = Some m"
  unfolding render_all_def by (induction xs arbitrary: s) (simp_all add: render_step_stable)

lemma provided_Cons: "provided r (x # xs) = provided r [x] @ provided r xs"
  by (cases x) simp_all

lemma set_all_append: "set_all m (xs @ ys) = set_all (set_all m xs) ys"
  by (simp add: set_all_def)

lemma render_all_store:
  "cache_ok s \<Longrightarrow> request_store r (render_all e s xs) = set_all (request_store r s) (provided r xs)"
proof (induction xs arbitrary: s)
  case Nil
  show ?case by (simp add: render_all_def set_all_def)
next
  case (Cons x xs)
  have "request_store r (render_all e (render_step e s x) xs)
      = set_all (request_store r (render_step e s x)) (provided r xs)"
    by (rule Cons.IH) (simp add: Cons.prems render_step_cache_ok)
  then show ?case
    using provided_Cons [of r x xs]
    by (simp add: render_all_def render_step_store [OF Cons.prems] set_all_append)
qed

section \<open>Hydration and the hook\<close>

lemma getHydratedStore_cases:
  obtains (cached) "truthy (clientStore c)" "getHydratedStore rt c = (clientStore c, c)"
  | (server) "\<not> truthy (clientStore c)" "rt = NoWindow" "getHydratedStore rt c = (JObj [], c)"
  | (absent) doc where "\<not> truthy (clientStore c)" "rt = Window doc"
      "doc ''__CONTEXT_BRIDGE_STORE__'' = None \<or> doc ''__CONTEXT_BRIDGE_STORE__'' = Some []"
      "getHydratedStore rt c =
         (JObj [], c\<lparr>calls := calls c @ [GetElementById ''__CONTEXT_BRIDGE_STORE__''],
                     clientStore := JObj []\<rparr>)"
  | (unparsable) doc blob where "\<not> truthy (clientStore c)" "rt = Window doc"
      "doc ''__CONTEXT_BRIDGE_STORE__'' = Some blob" "blob \<noteq> []" "JSON_parse blob = None"
      "getHydratedStore rt c =
         (JObj [], c\<lparr>calls := calls c @ [GetElementById ''__CONTEXT_BRIDGE_STORE__'', Parse blob,
                       ConsoleError ''ContextBridge Error: Unable to parse data from server.''],
                     clientStore := JObj []\<rparr>)"
  | (parsed) doc blob v where "\<not> truthy (clientStore c)" "rt = Window doc"
      "doc ''__CONTEXT_BRIDGE_STORE__'' = Some blob" "blob \<noteq> []" "JSON_parse blob = Some v"
      "getHydratedStore rt c =
         (if truthy v then v else JObj [],
          c\<lparr>calls := calls c @ [GetElementById ''__CONTEXT_BRIDGE_STORE__'', Parse blob],
            clientStore := v\<rparr>)"
proof (cases "truthy (clientStore c)")
  case True
  then show ?thesis using cached by (simp add: getHydratedStore_def)
next
  case False
  show ?thesis
  proof (cases rt)
    case NoWindow
    with False show ?thesis using server by (simp add: getHydratedStore_def)
  next
    case (Window document)
    show ?thesis
    proof (cases "document ''__CONTEXT_BRIDGE_STORE__''")
      case None
      with False Window show ?thesis using absent [of document]
        by (simp add: getHydratedStore_def)
    next
      case (Some blob)
      show ?thesis
      proof (cases "blob = []")
        case True
        with False Window Some show ?thesis using absent [of document]
          by (simp add: getHydratedStore_def)
      next
        case nonempty: False
        show ?thesis
        proof (cases "JSON_parse blob")
          case None
          with False Window Some nonempty show ?thesis using unparsable [of document blob]
            by (simp add: getHydratedStore_def)
        next
          case (Some v)
          with False Window \<open>document ''__CONTEXT_BRIDGE_STORE__'' = Some blob\<close> nonempty
          show ?thesis using parsed [of document blob v]
            by (simp add: getHydratedStore_def)
        qed
      qed
    qed
  qed
qed

lemma getHydratedStore_not_null: "truthy (fst (getHydratedStore rt c))"
  by (cases rule: getHydratedStore_cases [of c rt]) simp_all

lemma getHydratedStore_depends:
  assumes "clientStore c' = clientStore c"
  shows "fst (getHydratedStore rt c') = fst (getHydratedStore rt c)
       \<and> clientStore (snd (getHydratedStore rt c')) = clientStore (snd (getHydratedStore rt c))"
  using assms by (simp add: getHydratedStore_def Let_def split: runtime.splits option.splits)

lemma getHydratedStore_settles:
  "fst (getHydratedStore rt (snd (getHydratedStore rt c))) = fst (getHydratedStore rt c)
   \<and> clientStore (snd (getHydratedStore rt (snd (getHydratedStore rt c))))
       = clientStore (snd (getHydratedStore rt c))"
  by (cases rule: getHydratedStore_cases [of c rt]) (simp_all add: getHydratedStore_def)

lemma get_property_truthy: "truthy st \<Longrightarrow> \<exists>x. get_property st k = Inr x"
  by (cases st) (simp_all add: get_property_def)

lemma hook_mount:
  "\<exists>x. get_property (fst (getHydratedStore rt c)) b = Inr x
     \<and> createBridgeHook b d rt None c =
         (Inr (if x \<noteq> VUndefined then x else d),
          Some (fst (getHydratedStore rt c)), snd (getHydratedStore rt c))"
proof -
  obtain x where "get_property (fst (getHydratedStore rt c)) b = Inr x"
    using get_property_truthy [OF getHydratedStore_not_null] by blast
  then show ?thesis
    by (cases "getHydratedStore rt c")
       (simp add: createBridgeHook_def useBridgeData_def useMemo_def)
qed

lemma hook_mount_client:
  "snd (snd (createBridgeHook b d rt None c)) = snd (getHydratedStore rt c)"
  using hook_mount [of rt c b d] by auto

lemma hook_mount_depends:
  assumes "clientStore c' = clientStore c"
  shows "fst (createBridgeHook b d rt None c') = fst (createBridgeHook b d rt None c)"
  using hook_mount [of rt c b d] hook_mount [of rt c' b d] getHydratedStore_depends [OF assms, of rt]
  by auto

lemma hook_rerender:
  "createBridgeHook b d rt (Some st) c =
     ((case get_property st b of
         Inl e \<Rightarrow> Inl e
       | Inr x \<Rightarrow> Inr (if x \<noteq> VUndefined then x else d)), Some st, c)"
  by (simp add: createBridgeHook_def useBridgeData_def useMemo_def split: sum.splits)

lemma hook_calls_store:
  assumes "clientStore c' = clientStore (snd (getHydratedStore rt c0))"
  shows "clientStore (hook_calls rt c' hooks) = clientStore (snd (getHydratedStore rt c0))"
  using assms
proof (induction hooks arbitrary: c')
  case Nil
  then show ?case by simp
next
  case (Cons h hs)
  have "clientStore (snd (getHydratedStore rt c'))
      = clientStore (snd (getHydratedStore rt (snd (getHydratedStore rt c0))))"
    using getHydratedStore_depends [OF Cons.prems, of rt] by simp
  also have "\<dots> = clientStore (snd (getHydratedStore rt c0))"
    using getHydratedStore_settles [of rt c0] by simp
  finally show ?case using Cons.IH by (simp add: hook_mount_client)
qed

lemmas parse_eval = JSON_parse_def parse_value.simps parse_elements.simps parse_members.simps
  skip_ws_def is_ws_def parse_number_def safe_integer_def parse_nat_def strip_prefix_def is_digit_def read_nat_def
  digit_val_def js_object_def own_property_order_def array_index_def unescape_def hex4_def
  hex_val_def

lemmas client_eval = createBridgeHook_def useBridgeData_def useMemo_def getHydratedStore_def
  client_init_def get_property_def Object_prototype_def Object_prototype_names_def inherited_def

lemma server_pass_not_cached:
  assumes "\<not> truthy (clientStore c)"
  shows "getHydratedStore NoWindow c = (JObj [], c)"
    and "Object_prototype (VObj []) bridgeId = VUndefined \<Longrightarrow>
         fst (createBridgeHook bridgeId defaultValue NoWindow None c) = Inr defaultValue"
    and "calls (snd (getHydratedStore (Window doc) (snd (getHydratedStore NoWindow c))))
         = calls c @ GetElementById ''__CONTEXT_BRIDGE_STORE__''
             # (case doc ''__CONTEXT_BRIDGE_STORE__'' of
                  None \<Rightarrow> []
                | Some blob \<Rightarrow>
                    if blob = [] then []
                    else Parse blob
                      # (case JSON_parse blob of
                           None \<Rightarrow> [ConsoleError ''ContextBridge Error: Unable to parse data from server.'']
                         | Some v \<Rightarrow> []))"
  using assms
  by (simp_all add: getHydratedStore_def createBridgeHook_def useBridgeData_def useMemo_def
      get_property_def Let_def split: option.splits)

lemma hydration_cached:
  "truthy (clientStore c) \<Longrightarrow> getHydratedStore rt c = (clientStore c, c)"
  by (simp add: getHydratedStore_def)

lemma hydration_once:
  assumes "truthy (clientStore (snd (getHydratedStore rt c)))"
  shows "getHydratedStore rt (snd (getHydratedStore rt c))
           = (fst (getHydratedStore rt c), snd (getHydratedStore rt c))"
  using assms by (cases rule: getHydratedStore_cases [of c rt]) (simp_all add: hydration_cached)

section \<open>From the store to the document and back\<close>

lemma update_fold_map_of:
  "map_of (foldl (\<lambda>ps e. AList.update (fst e) (snd e) ps) acc es) = map_of acc ++ map_of (rev es)"
proof (induction es arbitrary: acc)
  case Nil
  show ?case by simp
next
  case (Cons e es)
  show ?case
    by (cases e) (simp add: Cons.IH AList.update_conv' map_add_upd_left fun_eq_iff map_add_def
        split: option.splits)
qed

lemma update_fold_distinct:
  "distinct (map fst acc) \<Longrightarrow>
   distinct (map fst (foldl (\<lambda>ps e. AList.update (fst e) (snd e) ps) acc es))"
  by (induction es arbitrary: acc) (simp_all add: AList.distinct_update)

lemma update_fold_keys:
  "fst ` set (foldl (\<lambda>ps e. AList.update (fst e) (snd e) ps) acc es) = fst ` set acc \<union> fst ` set es"
  by (induction es arbitrary: acc) (auto simp: AList.dom_update)

lemma own_property_order_set: "set (own_property_order ps) = set ps"
  by (auto simp: own_property_order_def)

lemma own_property_order_distinct:
  assumes "distinct (map fst ps)"
  shows "distinct (map fst (own_property_order ps))"
proof -
  let ?f = "\<lambda>p. the (array_index (fst p))"
  let ?A = "filter (\<lambda>p. array_index (fst p) \<noteq> None) ps"
  let ?B = "filter (\<lambda>p. array_index (fst p) = None) ps"
  have inj: "inj_on fst (set ps)" and d: "distinct ps"
    using assms by (simp_all add: distinct_map)
  have "distinct (sort_key ?f ?A @ ?B)" using d by auto
  moreover have "set (sort_key ?f ?A @ ?B) = set ps" by auto
  ultimately show ?thesis
    using inj by (simp add: own_property_order_def distinct_map del: map_append)
qed

lemma own_property_order_map_of:
  assumes "distinct (map fst ps)"
  shows "map_of (own_property_order ps) = map_of ps"
  using own_property_order_distinct [OF assms] assms own_property_order_set [of ps]
  by (simp add: map_of_inject_set)

lemma js_object_distinct: "distinct (map fst (js_object es))"
  unfolding js_object_def
  by (rule own_property_order_distinct) (simp add: update_fold_distinct)

lemma js_object_map_of: "map_of (js_object es) = map_of (rev es)"
  unfolding js_object_def
  by (simp add: own_property_order_map_of update_fold_distinct update_fold_map_of)

lemma js_object_keys: "fst ` set (js_object es) = fst ` set es"
  by (simp add: js_object_def own_property_order_set update_fold_keys)

lemma js_object_Nil_iff: "js_object es = [] \<longleftrightarrow> es = []"
  using js_object_keys [of es] by (metis image_is_empty set_empty)

lemma map_of_rev_distinct: "distinct (map fst es) \<Longrightarrow> map_of (rev es) = map_of es"
  by (rule map_of_inject_set [THEN iffD2]) (simp_all add: rev_map [symmetric])

lemma js_object_map_of_distinct: "distinct (map fst es) \<Longrightarrow> map_of (js_object es) = map_of es"
  by (simp add: js_object_map_of map_of_rev_distinct)

lemma set_all_distinct: "distinct (map fst m) \<Longrightarrow> distinct (map fst (set_all m es))"
  by (simp add: set_all_def update_fold_distinct)

lemma set_all_map_of: "map_of (set_all m es) = map_of m ++ map_of (rev es)"
  by (simp add: set_all_def update_fold_map_of)

lemma member_keys_distinct:
  "distinct (map fst ps) \<Longrightarrow>
   distinct (map fst (concat (map (\<lambda>p. case to_json (snd p) of Text j \<Rightarrow> [(fst p, j)] | _ \<Rightarrow> []) ps)))"
proof (induction ps)
  case Nil
  show ?case by simp
next
  case (Cons p ps)
  have "fst ` set (concat (map (\<lambda>p. case to_json (snd p) of Text j \<Rightarrow> [(fst p, j)] | _ \<Rightarrow> []) ps))
      \<subseteq> fst ` set ps"
    by (fastforce split: outcome.splits)
  with Cons show ?case by (auto split: outcome.splits)
qed

lemma member_map_of:
  "distinct (map fst ps) \<Longrightarrow>
   map_of (concat (map (\<lambda>p. case to_json (snd p) of Text j \<Rightarrow> [(fst p, j)] | _ \<Rightarrow> []) ps)) k
     = (case map_of ps k of
          None \<Rightarrow> None
        | Some v \<Rightarrow> (case to_json v of Text j \<Rightarrow> Some j | _ \<Rightarrow> None))"
proof (induction ps)
  case Nil
  show ?case by simp
next
  case (Cons p ps)
  then have notin: "fst p \<notin> fst ` set ps" by simp
  then have "map_of ps (fst p) = None" by (simp add: map_of_eq_None_iff)
  with Cons show ?case
    by (cases p) (auto split: outcome.splits option.splits)
qed

lemma to_json_object:
  assumes "to_json (VObj ps) = Text doc" "distinct (map fst ps)"
  shows "\<exists>ms. doc = JObj ms \<and> distinct (map fst ms)
     \<and> (\<forall>k. map_of ms k = (case map_of ps k of
                               None \<Rightarrow> None
                             | Some v \<Rightarrow> (case to_json v of Text j \<Rightarrow> Some j | _ \<Rightarrow> None)))"
  using assms member_keys_distinct [OF assms(2)] member_map_of [OF assms(2)]
  by (auto split: if_splits)

lemma to_json_object_throws:
  "to_json (VObj ps) = Throws \<longleftrightarrow> list_ex (\<lambda>p. to_json (snd p) = Throws) ps"
  by simp

lemma to_json_object_not_omitted: "to_json (VObj ps) \<noteq> Omitted"
  by simp

lemma map_of_map_snd:
  "map_of (map (\<lambda>p. (fst p, f (snd p))) ms) k = map_option f (map_of ms k)"
  by (induction ms) auto

lemma canon_object:
  assumes "distinct (map fst ms)"
  shows "\<exists>ms'. canon (JObj ms) = JObj ms' \<and> distinct (map fst ms')
     \<and> (\<forall>k. map_of ms' k = map_option canon (map_of ms k))"
proof -
  let ?es = "map (\<lambda>p. (fst p, canon (snd p))) ms"
  have "distinct (map fst ?es)" using assms by (simp add: comp_def)
  then have "map_of (js_object ?es) = map_of ?es" by (rule js_object_map_of_distinct)
  then show ?thesis
    using js_object_distinct [of ?es] by (simp add: map_of_map_snd)
qed

lemma of_json_defined: "of_json j \<noteq> VUndefined"
  by (cases j) simp_all

lemma to_json_safe: "plain_data v \<Longrightarrow> to_json v = Text j \<Longrightarrow> safe_json j"
proof (induction v arbitrary: j rule: to_json.induct)
  case (6 xs)
  have "safe_json (case to_json x of Text j \<Rightarrow> j | _ \<Rightarrow> JNull)" if "x \<in> set xs" for x
    using that 6 by (cases "to_json x") (auto simp: list_all_iff list_ex_iff split: if_splits)
  with 6 show ?case by (auto simp: list_all_iff split: if_splits)
next
  case (7 ps)
  have "list_all (\<lambda>m. safe_json (snd m)) (case to_json (snd p) of Text j \<Rightarrow> [(fst p, j)] | _ \<Rightarrow> [])"
    if "p \<in> set ps" for p
    using that 7 by (cases "to_json (snd p)") (auto simp: list_all_iff list_ex_iff split: if_splits)
  with 7 show ?case by (auto simp: list_all_iff split: if_splits)
qed auto

text \<open>What the client reads back from the document written for a store.\<close>

lemma hydrated_lookup:
  assumes "distinct (map fst store)" "to_json (Object_fromEntries store) = Text doc"
    and plain: "plain_data (Object_fromEntries store)"
  shows "JSON_parse (render doc) = Some (canon doc)"
    and "truthy (canon doc)"
    and "get_property (canon doc) k =
           Inr (case map_of store k of
                  None \<Rightarrow> Object_prototype (VObj []) k
                | Some v \<Rightarrow>
                    (case to_json v of
                       Text j \<Rightarrow> of_json (canon j)
                     | _ \<Rightarrow> Object_prototype (VObj []) k))"
proof -
  show "JSON_parse (render doc) = Some (canon doc)"
    using plain assms(2) by (rule JSON_parse_render [OF to_json_safe])
  have d: "distinct (map fst (js_object store))" by (rule js_object_distinct)
  from assms(2) have "to_json (VObj (js_object store)) = Text doc"
    by (simp add: Object_fromEntries_def)
  from to_json_object [OF this d] obtain ms where ms: "doc = JObj ms" "distinct (map fst ms)"
    and look: "\<And>k. map_of ms k = (case map_of (js_object store) k of
                               None \<Rightarrow> None
                             | Some v \<Rightarrow> (case to_json v of Text j \<Rightarrow> Some j | _ \<Rightarrow> None))"
    by blast
  from canon_object [OF ms(2)] obtain ms' where ms': "canon (JObj ms) = JObj ms'"
    and look': "\<And>k. map_of ms' k = map_option canon (map_of ms k)"
    by blast
  have cd: "canon doc = JObj ms'" using ms ms' by simp
  show "truthy (canon doc)" by (simp add: cd)
  have "map_of (js_object store) = map_of store"
    using assms(1) by (rule js_object_map_of_distinct)
  then show "get_property (canon doc) k =
           Inr (case map_of store k of
                  None \<Rightarrow> Object_prototype (VObj []) k
                | Some v \<Rightarrow>
                    (case to_json v of
                       Text j \<Rightarrow> of_json (canon j)
                     | _ \<Rightarrow> Object_prototype (VObj []) k))"
    by (simp add: cd get_property_def look look' split: option.splits outcome.splits)
qed

lemma render_nonempty: "render j \<noteq> []"
  using render_start [of j] by auto

lemma hydrate_written:
  assumes "\<not> truthy (clientStore c)" "page ''__CONTEXT_BRIDGE_STORE__'' = Some (render doc)"
    "truthy (canon doc)" "safe_json doc"
  shows "fst (getHydratedStore (Window page) c) = canon doc"
  using assms by (simp add: getHydratedStore_def Let_def JSON_parse_render render_nonempty)

lemma Serializer_result:
  "fst (BridgeSerializer node_env r s) =
     (if request_store r s = [] then Inr None
      else
        (case JSON_stringify (Object_fromEntries (request_store r s)) of
           Inl e \<Rightarrow>
             if node_env = ''development'' then
               Inl (Error ''ContextBridge: Data cannot be serialized (possibly due to circular reference).'')
             else Inr None
         | Inr jsonString \<Rightarrow>
             Inr (Some \<lparr>elem_id = ''__CONTEXT_BRIDGE_STORE__'',
                        elem_type = ''application/json'',
                        inner_html = (case jsonString of None \<Rightarrow> [] | Some t \<Rightarrow> t)\<rparr>)))"
proof -
  obtain m s1 where g: "getRequestStore r s = (m, s1)" by force
  then have "maps s1 ! m = request_store r s" by (rule getRequestStore_reads)
  with g show ?thesis
    by (simp add: BridgeSerializer_def Map_size_def split: sum.splits)
qed

lemma reachable_store_distinct:
  "distinct (map fst (request_store r (render_all node_env server_init renders)))"
proof -
  have "request_store r (render_all node_env server_init renders)
      = set_all (request_store r server_init) (provided r renders)"
    by (rule render_all_store) (rule cache_ok_init)
  then show ?thesis
    by (simp add: set_all_distinct request_store_def server_init_def)
qed

lemma reachable_store_last:
  "map_of (request_store r (render_all node_env server_init renders)) = map_of (rev (provided r renders))"
proof -
  have "request_store r (render_all node_env server_init renders)
      = set_all (request_store r server_init) (provided r renders)"
    by (rule render_all_store) (rule cache_ok_init)
  then show ?thesis
    by (simp add: set_all_map_of request_store_def server_init_def)
qed

lemma js_object_set_distinct:
  assumes "distinct (map fst es)"
  shows "set (js_object es) = set es"
  using js_object_map_of_distinct [OF assms] js_object_distinct [of es] assms
  by (simp add: map_of_inject_set)

lemma store_throws_iff:
  assumes "distinct (map fst store)"
  shows "to_json (Object_fromEntries store) = Throws \<longleftrightarrow> list_ex (\<lambda>e. to_json (snd e) = Throws) store"
  using js_object_set_distinct [OF assms]
  by (simp add: Object_fromEntries_def list_ex_iff)

lemma store_document:
  assumes "distinct (map fst store)" "\<not> list_ex (\<lambda>e. to_json (snd e) = Throws) store"
  shows "\<exists>ms. to_json (Object_fromEntries store) = Text (JObj ms) \<and> distinct (map fst ms)
     \<and> (\<forall>k. map_of ms k = (case map_of store k of
                               None \<Rightarrow> None
                             | Some v \<Rightarrow> (case to_json v of Text j \<Rightarrow> Some j | _ \<Rightarrow> None)))"
proof -
  have nt: "to_json (Object_fromEntries store) \<noteq> Throws"
    using assms by (simp add: store_throws_iff)
  then obtain doc where doc: "to_json (VObj (js_object store)) = Text doc"
    by (auto simp: Object_fromEntries_def split: if_splits)
  from to_json_object [OF doc js_object_distinct] obtain ms where
    "doc = JObj ms" "distinct (map fst ms)"
    "\<And>k. map_of ms k = (case map_of (js_object store) k of
                               None \<Rightarrow> None
                             | Some v \<Rightarrow> (case to_json v of Text j \<Rightarrow> Some j | _ \<Rightarrow> None))"
    by blast
  with doc js_object_map_of_distinct [OF assms(1)] show ?thesis
    by (simp add: Object_fromEntries_def)
qed

lemma count_key:
  "distinct (map fst ms) \<Longrightarrow>
   length (filter (\<lambda>m. fst m = k) ms) = (case map_of ms k of None \<Rightarrow> 0 | Some v \<Rightarrow> 1)"
proof (induction ms)
  case Nil
  show ?case by simp
next
  case (Cons m ms)
  show ?case
  proof (cases "fst m = k")
    case True
    with Cons.prems have "k \<notin> fst ` set ms" by auto
    then have "filter (\<lambda>m. fst m = k) ms = []" by (auto simp: filter_empty_conv)
    with True show ?thesis by (cases m) simp
  next
    case False
    with Cons show ?thesis by (cases m) auto
  qed
qed

lemma normalize_newlines_append:
  "CHR 0x0D \<notin> set xs \<Longrightarrow> normalize_newlines (xs @ ys) = xs @ normalize_newlines ys"
proof (induction xs rule: normalize_newlines.induct)
  case 1
  show ?case by simp
next
  case (2 c)
  then show ?case by (cases ys) simp_all
next
  case (3 c d cs)
  then show ?case by auto
qed

lemma script_data_plain:
  "CHR ''<'' \<notin> set xs \<Longrightarrow> script_data ScriptData (xs @ ys) = xs @ script_data ScriptData ys"
  by (induction xs) (auto simp: in_script_data_def)

lemma script_data_end_tag: "script_data ScriptData (''</script>'' @ rest) = []"
  by (simp add: in_script_data_def is_alpha_def tag_end_def lower_def)

lemma textContent_intact:
  assumes "CHR ''<'' \<notin> set html" "CHR 0x0D \<notin> set html"
  shows "textContent html rest = html"
proof -
  have "normalize_newlines (''</script>'' @ rest) = ''</script>'' @ normalize_newlines rest"
    by (rule normalize_newlines_append) simp
  then have "normalize_newlines (html @ ''</script>'' @ rest)
      = html @ ''</script>'' @ normalize_newlines rest"
    using assms(2) by (simp add: normalize_newlines_append)
  then show ?thesis
    using assms(1) script_data_end_tag [of "normalize_newlines rest"]
    by (simp add: textContent_def script_data_plain del: append.simps)
qed

subsection \<open>Evaluation\<close>

lemmas server_eval = render_all_def createBridgeProvider_def warn_if_lost_def getRequestStore_def
  cache_def new_Map_def Map_set_def Map_size_def server_init_def request_store_def
  console_log_def is_function_def is_symbol_def BridgeSerializer_def Object_fromEntries_def
  JSON_stringify_def js_object_def own_property_order_def array_index_def is_digit_def
  quote_def quote_char_def safe_integer_def

lemmas page_eval = load_page_def textContent_def in_script_data_def is_alpha_def tag_end_def
  lower_def

lemmas syntax_eval = JSON_syntax_def syntax_value.simps syntax_elements.simps
  syntax_members.simps syntax_number_def syntax_int_def syntax_fraction_def syntax_exponent_def
  syntax_digits_def JSON_parse_exact_def hydration_exact_def

lemma not_syntax_rejected: "\<not> JSON_syntax text \<Longrightarrow> JSON_parse text = None"
  using JSON_parse_syntax [of "text"] by (cases "JSON_parse text") auto

lemma provided_append: "provided r (xs @ ys) = provided r xs @ provided r ys"
  by (induction xs rule: provided.induct) simp_all

lemma last_provided:
  assumes "renders = before @ RenderProvider r bridgeId v # after"
    and "bridgeId \<notin> fst ` set (provided r after)"
  shows "map_of (rev (provided r renders)) bridgeId = Some v"
proof -
  have "map_of (rev (provided r after)) bridgeId = None"
    using assms(2) by (simp add: map_of_eq_None_iff)
  then show ?thesis
    by (simp add: assms(1) provided_append map_add_def)
qed

section \<open>The claims\<close>

text \<open>
  C1. A Provider is given the string \<open></script>\<close>, which is JSON-serializable. The
  serializer writes it into the script element as it is; the browser ends the element at
  that end tag, so the text of the element is cut short, \<open>JSON.parse\<close> rejects it, and the
  hook for the identifier returns its default value instead of the stored string.
\<close>

theorem end_tag_in_a_string_breaks_the_round_trip:
  "fst (BridgeSerializer ''production'' 0
         (render_all ''production'' server_init [RenderProvider 0 ''note'' (VStr ''</script>'')]))
     = Inr (Some \<lparr>elem_id = ''__CONTEXT_BRIDGE_STORE__'', elem_type = ''application/json'',
                  inner_html = ''{\"note\":\"</script>\"}''\<rparr>)
   \<and> load_page (Some \<lparr>elem_id = ''__CONTEXT_BRIDGE_STORE__'', elem_type = ''application/json'',
                        inner_html = ''{\"note\":\"</script>\"}''\<rparr>) ''</body></html>''
         ''__CONTEXT_BRIDGE_STORE__''
       = Some ''{\"note\":\"''
   \<and> fst (createBridgeHook ''note'' (VStr ''fallback'')
            (Window (load_page (Some \<lparr>elem_id = ''__CONTEXT_BRIDGE_STORE__'',
                                        elem_type = ''application/json'',
                                        inner_html = ''{\"note\":\"</script>\"}''\<rparr>)
                       ''</body></html>''))
            None client_init)
       = Inr (VStr ''fallback'')"
  by (simp add: server_eval page_eval client_eval parse_eval)

text \<open>
  C2. On a page without a serialized store, the hook for the identifier \<open>toString\<close> does
  not return its default value: the lookup in the empty store finds the method that every
  object inherits.
\<close>

theorem inherited_name_is_not_defaulted:
  "fst (createBridgeHook ''toString'' (VStr ''fallback'') (Window Map.empty) None client_init)
     = Inr (VFunction ''Object.prototype.toString'')"
  by (simp add: client_eval)

text \<open>
  C3. A page whose script element holds the JSON text \<open>null\<close>: the first call parses it,
  keeps \<open>null\<close> in \<open>clientStore\<close> and returns an empty object; the second call finds
  \<open>clientStore\<close> still falsy, so it locates the element and parses the text again.
\<close>

theorem falsy_blob_is_parsed_again:
  "calls (snd (getHydratedStore (Window [''__CONTEXT_BRIDGE_STORE__'' \<mapsto> ''null''])
            (snd (getHydratedStore (Window [''__CONTEXT_BRIDGE_STORE__'' \<mapsto> ''null''])
                    client_init))))
     = [GetElementById ''__CONTEXT_BRIDGE_STORE__'', Parse ''null'',
        GetElementById ''__CONTEXT_BRIDGE_STORE__'', Parse ''null'']"
  by (simp add: client_eval parse_eval)

text \<open>
  C4. In production, a store whose only value is a cyclic object is not empty, and
  \<open>BridgeSerializer\<close> renders nothing for it.
\<close>

theorem unserializable_store_renders_nothing:
  "request_store 0 (render_all ''production'' server_init [RenderProvider 0 ''user'' VCyclic]) \<noteq> []
   \<and> fst (BridgeSerializer ''production'' 0
            (render_all ''production'' server_init [RenderProvider 0 ''user'' VCyclic]))
       = Inr None"
  by (simp add: server_eval)

text \<open>
  C4, amended. For the store of a request after any render pass, when the object that
  \<open>BridgeSerializer\<close> hands to \<open>JSON.stringify\<close> is plain data (safe integers, no
  function under the name \<open>toJSON\<close>): an empty store renders nothing; a store with a
  value on which \<open>JSON.stringify\<close> throws renders nothing in production and throws an
  Error in development; every other store renders one script element with the id
  \<open>__CONTEXT_BRIDGE_STORE__\<close> and the type \<open>application/json\<close>, whose content is one
  JSON document. That document has one member for every entry whose value is not
  \<open>undefined\<close>, a function or a symbol, holding the JSON form of the value, and no other
  member, and \<open>JSON.parse\<close> accepts it.
\<close>

theorem serializer_output:
  fixes node_env :: string and renders :: "component list" and r :: request
  defines "s \<equiv> render_all node_env server_init renders"
  defines "store \<equiv> request_store r s"
  assumes plain: "plain_data (Object_fromEntries store)"
  shows "(store = [] \<longrightarrow> fst (BridgeSerializer node_env r s) = Inr None)
    \<and> (store \<noteq> [] \<and> list_ex (\<lambda>e. to_json (snd e) = Throws) store \<longrightarrow>
         fst (BridgeSerializer node_env r s) =
           (if node_env = ''development'' then
              Inl (Error ''ContextBridge: Data cannot be serialized (possibly due to circular reference).'')
            else Inr None))
    \<and> (store \<noteq> [] \<and> \<not> list_ex (\<lambda>e. to_json (snd e) = Throws) store \<longrightarrow>
         (\<exists>ms. fst (BridgeSerializer node_env r s) =
                  Inr (Some \<lparr>elem_id = ''__CONTEXT_BRIDGE_STORE__'',
                             elem_type = ''application/json'',
                             inner_html = render (JObj ms)\<rparr>)
              \<and> distinct (map fst ms)
              \<and> (\<forall>k. map_of ms k =
                    (case map_of store k of
                       None \<Rightarrow> None
                     | Some v \<Rightarrow> (case to_json v of Text j \<Rightarrow> Some j | _ \<Rightarrow> None)))
              \<and> JSON_parse (render (JObj ms)) = Some (canon (JObj ms))))"
proof -
  have d: "distinct (map fst store)"
    unfolding store_def s_def by (rule reachable_store_distinct)
  have res: "fst (BridgeSerializer node_env r s) =
     (if store = [] then Inr None
      else
        (case JSON_stringify (Object_fromEntries store) of
           Inl e \<Rightarrow>
             if node_env = ''development'' then
               Inl (Error ''ContextBridge: Data cannot be serialized (possibly due to circular reference).'')
             else Inr None
         | Inr jsonString \<Rightarrow>
             Inr (Some \<lparr>elem_id = ''__CONTEXT_BRIDGE_STORE__'',
                        elem_type = ''application/json'',
                        inner_html = (case jsonString of None \<Rightarrow> [] | Some t \<Rightarrow> t)\<rparr>)))"
    unfolding store_def by (rule Serializer_result)
  have one: "store = [] \<longrightarrow> fst (BridgeSerializer node_env r s) = Inr None"
    by (simp add: res)
  have two: "store \<noteq> [] \<and> list_ex (\<lambda>e. to_json (snd e) = Throws) store \<longrightarrow>
         fst (BridgeSerializer node_env r s) =
           (if node_env = ''development'' then
              Inl (Error ''ContextBridge: Data cannot be serialized (possibly due to circular reference).'')
            else Inr None)"
  proof
    assume a: "store \<noteq> [] \<and> list_ex (\<lambda>e. to_json (snd e) = Throws) store"
    then have "to_json (Object_fromEntries store) = Throws"
      using store_throws_iff [OF d] by simp
    with a show "fst (BridgeSerializer node_env r s) =
           (if node_env = ''development'' then
              Inl (Error ''ContextBridge: Data cannot be serialized (possibly due to circular reference).'')
            else Inr None)"
      by (simp add: res JSON_stringify_def)
  qed
  have three: "\<exists>ms. fst (BridgeSerializer node_env r s) =
                  Inr (Some \<lparr>elem_id = ''__CONTEXT_BRIDGE_STORE__'',
                             elem_type = ''application/json'',
                             inner_html = render (JObj ms)\<rparr>)
              \<and> distinct (map fst ms)
              \<and> (\<forall>k. map_of ms k =
                    (case map_of store k of
                       None \<Rightarrow> None
                     | Some v \<Rightarrow> (case to_json v of Text j \<Rightarrow> Some j | _ \<Rightarrow> None)))
              \<and> JSON_parse (render (JObj ms)) = Some (canon (JObj ms))"
    if ne: "store \<noteq> []" and nt: "\<not> list_ex (\<lambda>e. to_json (snd e) = Throws) store"
  proof -
    from store_document [OF d nt] obtain ms where
      ms: "to_json (Object_fromEntries store) = Text (JObj ms)" "distinct (map fst ms)"
      "\<forall>k. map_of ms k = (case map_of store k of
                               None \<Rightarrow> None
                             | Some v \<Rightarrow> (case to_json v of Text j \<Rightarrow> Some j | _ \<Rightarrow> None))"
      by blast
    have "fst (BridgeSerializer node_env r s) =
            Inr (Some \<lparr>elem_id = ''__CONTEXT_BRIDGE_STORE__'',
                       elem_type = ''application/json'',
                       inner_html = render (JObj ms)\<rparr>)"
      using ne ms(1) by (simp add: res JSON_stringify_def)
    moreover have "JSON_parse (render (JObj ms)) = Some (canon (JObj ms))"
      using plain ms(1) by (rule JSON_parse_render [OF to_json_safe])
    ultimately show ?thesis using ms(2,3) by blast
  qed
  from one two three show ?thesis by blast
qed

theorem serializer_output_witness:
  "fst (BridgeSerializer ''production'' 0 server_init) = Inr None
   \<and> fst (BridgeSerializer ''development'' 0
            (render_all ''development'' server_init [RenderProvider 0 ''user'' VCyclic]))
       = Inl (Error ''ContextBridge: Data cannot be serialized (possibly due to circular reference).'')
   \<and> (\<exists>ms. fst (BridgeSerializer ''production'' 0
                 (render_all ''production'' server_init
                    [RenderProvider 0 ''user'' (VStr ''ann''), RenderProvider 0 ''cb'' (VFunction ''f'')]))
             = Inr (Some \<lparr>elem_id = ''__CONTEXT_BRIDGE_STORE__'', elem_type = ''application/json'',
                          inner_html = render (JObj ms)\<rparr>)
           \<and> map_of ms ''user'' = Some (JStr ''ann'') \<and> map_of ms ''cb'' = None)"
proof -
  have a: "request_store 0 (render_all ''production'' server_init []) = []"
    by (simp add: server_eval)
  have b: "request_store 0 (render_all ''development'' server_init [RenderProvider 0 ''user'' VCyclic])
      = [(''user'', VCyclic)]"
    by (simp add: server_eval)
  have c: "request_store 0 (render_all ''production'' server_init
              [RenderProvider 0 ''user'' (VStr ''ann''), RenderProvider 0 ''cb'' (VFunction ''f'')])
      = [(''user'', VStr ''ann''), (''cb'', VFunction ''f'')]"
    by (simp add: server_eval)
  have pa: "plain_data (Object_fromEntries [])"
    by (simp add: server_eval)
  have pb: "plain_data (Object_fromEntries [(''user'', VCyclic)])"
    by (simp add: server_eval)
  have pc: "plain_data (Object_fromEntries [(''user'', VStr ''ann''), (''cb'', VFunction ''f'')])"
    by (simp add: server_eval)
  have one: "fst (BridgeSerializer ''production'' 0 server_init) = Inr None"
    using serializer_output [where node_env = "''production''" and r = 0 and renders = "[]"] pa
    unfolding a by (simp add: render_all_def)
  have two: "fst (BridgeSerializer ''development'' 0
            (render_all ''development'' server_init [RenderProvider 0 ''user'' VCyclic]))
       = Inl (Error ''ContextBridge: Data cannot be serialized (possibly due to circular reference).'')"
    using serializer_output [where node_env = "''development''" and r = 0
        and renders = "[RenderProvider 0 ''user'' VCyclic]"] pb
    unfolding b by simp
  have "\<exists>ms. fst (BridgeSerializer ''production'' 0
                 (render_all ''production'' server_init
                    [RenderProvider 0 ''user'' (VStr ''ann''), RenderProvider 0 ''cb'' (VFunction ''f'')]))
             = Inr (Some \<lparr>elem_id = ''__CONTEXT_BRIDGE_STORE__'', elem_type = ''application/json'',
                          inner_html = render (JObj ms)\<rparr>)
           \<and> (\<forall>k. map_of ms k =
                    (case map_of [(''user'', VStr ''ann''), (''cb'', VFunction ''f'')] k of
                       None \<Rightarrow> None
                     | Some v \<Rightarrow> (case to_json v of Text j \<Rightarrow> Some j | _ \<Rightarrow> None)))"
    using serializer_output [where node_env = "''production''" and r = 0
        and renders = "[RenderProvider 0 ''user'' (VStr ''ann''), RenderProvider 0 ''cb'' (VFunction ''f'')]"]
      pc
    unfolding c by (simp del: render.simps canon.simps map_of.simps plain_data.simps) blast
  then obtain ms where ms: "fst (BridgeSerializer ''production'' 0
                 (render_all ''production'' server_init
                    [RenderProvider 0 ''user'' (VStr ''ann''), RenderProvider 0 ''cb'' (VFunction ''f'')]))
             = Inr (Some \<lparr>elem_id = ''__CONTEXT_BRIDGE_STORE__'', elem_type = ''application/json'',
                          inner_html = render (JObj ms)\<rparr>)"
     and look: "\<And>k. map_of ms k =
                    (case map_of [(''user'', VStr ''ann''), (''cb'', VFunction ''f'')] k of
                       None \<Rightarrow> None
                     | Some v \<Rightarrow> (case to_json v of Text j \<Rightarrow> Some j | _ \<Rightarrow> None))"
    by blast
  have "map_of ms ''user'' = Some (JStr ''ann'')" "map_of ms ''cb'' = None"
    by (simp_all add: look)
  with one two ms show ?thesis by blast
qed

text \<open>
  C5. Two operations of the library throw: in development \<open>BridgeSerializer\<close> throws an
  Error when the store holds a cyclic object, and \<open>useBridge\<close> throws an Error when no
  \<open>BridgeProvider\<close> encloses the component.
\<close>

theorem operations_that_throw:
  "fst (BridgeSerializer ''development'' 0
         (render_all ''development'' server_init [RenderProvider 0 ''user'' VCyclic]))
     = Inl (Error ''ContextBridge: Data cannot be serialized (possibly due to circular reference).'')
   \<and> useBridge [] = Inl (Error ''useBridge must be used within a BridgeProvider'')"
  by (simp add: server_eval useBridge_def useContext_def)

text \<open>
  C5, amended. A newly mounted hook made by \<open>createBridgeHook\<close> never throws, in any
  runtime and client state. When the client has not hydrated yet and the blob is missing,
  empty or not a JSON text (so that \<open>JSON.parse\<close> throws), the hydrated store is the
  empty object and the hook returns its default value for every identifier that names no
  property inherited by the empty object. The Provider returns a state and has no way to
  throw. \<open>BridgeSerializer\<close> never throws outside development; in development, on a
  store of plain data, it throws exactly when the store is not empty and
  \<open>JSON.stringify\<close> throws on it, and what it throws is its own Error. \<open>useBridge\<close>
  throws exactly when the context value is \<open>undefined\<close>, and what it throws is its own
  Error.
\<close>

theorem failure_handling:
  fixes rt :: runtime and c :: client and b :: string and d :: jsval
    and page :: "string \<Rightarrow> string option" and node_env :: string and r :: request
    and s :: server and e :: error and providers :: "jsval list"
  shows "(\<exists>v. fst (createBridgeHook b d rt None c) = Inr v)
    \<and> (\<not> truthy (clientStore c)
         \<and> (case page ''__CONTEXT_BRIDGE_STORE__'' of
               None \<Rightarrow> True
             | Some blob \<Rightarrow> \<not> JSON_syntax blob) \<longrightarrow>
         fst (getHydratedStore (Window page) c) = JObj []
         \<and> (Object_prototype (VObj []) b = VUndefined \<longrightarrow>
              fst (createBridgeHook b d (Window page) None c) = Inr d))
    \<and> (node_env \<noteq> ''development'' \<longrightarrow>
         (\<exists>rendered. fst (BridgeSerializer node_env r s) = Inr rendered))
    \<and> (plain_data (Object_fromEntries (request_store r s)) \<longrightarrow>
         (fst (BridgeSerializer ''development'' r s) = Inl e \<longleftrightarrow>
            request_store r s \<noteq> []
            \<and> to_json (Object_fromEntries (request_store r s)) = Throws
            \<and> e = Error ''ContextBridge: Data cannot be serialized (possibly due to circular reference).''))
    \<and> (useBridge providers = Inl e \<longleftrightarrow>
         useContext providers = VUndefined
         \<and> e = Error ''useBridge must be used within a BridgeProvider'')"
proof -
  have one: "\<exists>v. fst (createBridgeHook b d rt None c) = Inr v"
    using hook_mount [of rt c b d] by auto
  have two: "fst (getHydratedStore (Window page) c) = JObj []
         \<and> (Object_prototype (VObj []) b = VUndefined \<longrightarrow>
              fst (createBridgeHook b d (Window page) None c) = Inr d)"
    if "\<not> truthy (clientStore c)
         \<and> (case page ''__CONTEXT_BRIDGE_STORE__'' of
               None \<Rightarrow> True
             | Some blob \<Rightarrow> \<not> JSON_syntax blob)"
  proof -
    have "case page ''__CONTEXT_BRIDGE_STORE__'' of
               None \<Rightarrow> True
             | Some blob \<Rightarrow> JSON_parse blob = None"
      using that by (auto split: option.splits dest: not_syntax_rejected)
    with that have empty: "fst (getHydratedStore (Window page) c) = JObj []"
      by (simp add: getHydratedStore_def Let_def split: option.splits)
    then have "get_property (fst (getHydratedStore (Window page) c)) b
        = Inr (Object_prototype (VObj []) b)"
      by (simp add: get_property_def)
    with empty show ?thesis
      using hook_mount [of "Window page" c b d] by auto
  qed
  have three: "\<exists>rendered. fst (BridgeSerializer node_env r s) = Inr rendered"
    if "node_env \<noteq> ''development''"
    using that by (simp add: Serializer_result split: sum.splits)
  have four: "fst (BridgeSerializer ''development'' r s) = Inl e \<longleftrightarrow>
         request_store r s \<noteq> []
         \<and> to_json (Object_fromEntries (request_store r s)) = Throws
         \<and> e = Error ''ContextBridge: Data cannot be serialized (possibly due to circular reference).''"
    by (auto simp: Serializer_result JSON_stringify_def split: outcome.splits)
  have five: "useBridge providers = Inl e \<longleftrightarrow>
         useContext providers = VUndefined
         \<and> e = Error ''useBridge must be used within a BridgeProvider''"
    by (auto simp: useBridge_def Let_def)
  from one two three four five show ?thesis by blast
qed

theorem failure_handling_witness:
  "fst (getHydratedStore (Window [''__CONTEXT_BRIDGE_STORE__'' \<mapsto> ''{oops'']) client_init) = JObj []
   \<and> fst (createBridgeHook ''user'' (VStr ''guest'')
            (Window [''__CONTEXT_BRIDGE_STORE__'' \<mapsto> ''{oops'']) None client_init)
       = Inr (VStr ''guest'')
   \<and> (\<exists>rendered. fst (BridgeSerializer ''production'' 0
                        (render_all ''production'' server_init [RenderProvider 0 ''user'' VCyclic]))
                    = Inr rendered)
   \<and> fst (BridgeSerializer ''development'' 0
            (render_all ''production'' server_init [RenderProvider 0 ''user'' VCyclic]))
       = Inl (Error ''ContextBridge: Data cannot be serialized (possibly due to circular reference).'')"
proof -
  have a: "\<not> truthy (clientStore client_init)" by (simp add: client_init_def)
  have b: "\<not> JSON_syntax ''{oops''" by (simp add: syntax_eval skip_ws_def is_ws_def)
  have c: "Object_prototype (VObj []) ''user'' = VUndefined"
    by (simp add: Object_prototype_def Object_prototype_names_def)
  have st: "request_store 0 (render_all ''production'' server_init [RenderProvider 0 ''user'' VCyclic])
      = [(''user'', VCyclic)]"
    by (simp add: server_eval)
  have p: "plain_data (Object_fromEntries [(''user'', VCyclic)])"
    by (simp add: server_eval)
  have t: "to_json (Object_fromEntries [(''user'', VCyclic)]) = Throws"
    by (simp add: server_eval)
  show ?thesis
    using failure_handling [where c = client_init and b = "''user''" and d = "VStr ''guest''"
        and page = "[''__CONTEXT_BRIDGE_STORE__'' \<mapsto> ''{oops'']"
        and node_env = "''production''" and r = 0
        and s = "render_all ''production'' server_init [RenderProvider 0 ''user'' VCyclic]"
        and e = "Error ''ContextBridge: Data cannot be serialized (possibly due to circular reference).''"]
      a b c p t
    unfolding st by (simp del: plain_data.simps to_json.simps)
qed

text \<open>
  C6. Within one request every call of \<open>getRequestStore\<close> returns the same \<open>Map\<close>:
  after any render pass \<open>renders\<close> from the initial server state, the store of request
  \<open>r\<close> holds exactly what the Providers of \<open>r\<close> set, in their order (so it is empty
  before the first of them and holds nothing set in another request); the \<open>Map\<close>
  handed out in \<open>r\<close> has that content; any later call in \<open>r\<close>, after any further
  renders, returns the same \<open>Map\<close>; and a call in another request returns a different
  \<open>Map\<close>. \<open>BridgeSerializer\<close> rendered in \<open>r\<close> sees what the Providers of \<open>r\<close> set:
  it renders nothing when they set nothing, and otherwise it hands the object made of
  their entries to \<open>JSON.stringify\<close> and renders the text it gets, or fails as
  \<open>JSON.stringify\<close> fails (the result of \<open>JSON.stringify\<close> being described for plain
  data).
\<close>

theorem request_scoped_store:
  fixes node_env :: string and renders more :: "component list" and r r' :: request
  defines "s \<equiv> render_all node_env server_init renders"
  defines "m \<equiv> fst (getRequestStore r s)"
  defines "s1 \<equiv> snd (getRequestStore r s)"
  defines "entries \<equiv> set_all [] (provided r renders)"
  shows "request_store r s = entries
    \<and> maps s1 ! m = request_store r s
    \<and> fst (getRequestStore r (render_all node_env s1 more)) = m
    \<and> (r' \<noteq> r \<longrightarrow> fst (getRequestStore r' (render_all node_env s1 more)) \<noteq> m)
    \<and> (plain_data (Object_fromEntries entries) \<longrightarrow>
         fst (BridgeSerializer node_env r s) =
           (if entries = [] then Inr None
            else
              (case to_json (Object_fromEntries entries) of
                 Text doc \<Rightarrow>
                   Inr (Some \<lparr>elem_id = ''__CONTEXT_BRIDGE_STORE__'',
                              elem_type = ''application/json'',
                              inner_html = render doc\<rparr>)
               | _ \<Rightarrow>
                   if node_env = ''development'' then
                     Inl (Error ''ContextBridge: Data cannot be serialized (possibly due to circular reference).'')
                   else Inr None)))"
proof -
  have ok: "cache_ok s"
    unfolding s_def by (rule render_all_cache_ok) (rule cache_ok_init)
  have g: "getRequestStore r s = (m, s1)" by (simp add: m_def s1_def)
  have "request_store r s = set_all (request_store r server_init) (provided r renders)"
    unfolding s_def by (rule render_all_store) (rule cache_ok_init)
  then have one: "request_store r s = entries"
    by (simp add: request_store_def server_init_def entries_def)
  have two: "maps s1 ! m = request_store r s" using g by (rule getRequestStore_reads)
  let ?s2 = "render_all node_env s1 more"
  have ok2: "cache_ok ?s2"
    by (rule render_all_cache_ok) (rule getRequestStore_cache_ok [OF ok g])
  have kept: "request_cache ?s2 r = Some m"
    by (rule render_all_stable) (rule getRequestStore_cached [OF g])
  then have three: "fst (getRequestStore r ?s2) = m" by (simp add: getRequestStore_kept)
  have four: "fst (getRequestStore r' ?s2) \<noteq> m" if "r' \<noteq> r"
  proof
    assume eq: "fst (getRequestStore r' ?s2) = m"
    obtain s3 where g': "getRequestStore r' ?s2 = (m, s3)"
      using eq by (cases "getRequestStore r' ?s2") simp
    have "cache_ok s3" using ok2 g' by (rule getRequestStore_cache_ok)
    moreover have "request_cache s3 r' = Some m" using g' by (rule getRequestStore_cached)
    moreover have "request_cache s3 r = Some m" using g' kept by (rule getRequestStore_stable)
    ultimately have "r' = r" by (metis cache_ok_inj)
    with that show False by simp
  qed
  have five: "fst (BridgeSerializer node_env r s) =
           (if entries = [] then Inr None
            else
              (case to_json (Object_fromEntries entries) of
                 Text doc \<Rightarrow>
                   Inr (Some \<lparr>elem_id = ''__CONTEXT_BRIDGE_STORE__'',
                              elem_type = ''application/json'',
                              inner_html = render doc\<rparr>)
               | _ \<Rightarrow>
                   if node_env = ''development'' then
                     Inl (Error ''ContextBridge: Data cannot be serialized (possibly due to circular reference).'')
                   else Inr None))"
  proof -
    have "to_json (Object_fromEntries entries) \<noteq> Omitted"
      by (simp add: Object_fromEntries_def)
    then show ?thesis
      unfolding Serializer_result one
      by (cases "to_json (Object_fromEntries entries)") (simp_all add: JSON_stringify_def)
  qed
  from one two three four five show ?thesis by simp
qed

theorem request_scoped_store_witness:
  "request_store 1 (render_all ''production'' server_init
       [RenderProvider 1 ''user'' (VStr ''ann''), RenderProvider 2 ''theme'' (VStr ''dark''),
        RenderProvider 1 ''user'' VNull])
     = [(''user'', VNull)]
   \<and> fst (getRequestStore 2 (render_all ''production''
         (snd (getRequestStore 1 (render_all ''production'' server_init
           [RenderProvider 1 ''user'' (VStr ''ann''), RenderProvider 2 ''theme'' (VStr ''dark''),
            RenderProvider 1 ''user'' VNull])))
         [RenderProvider 2 ''theme'' (VStr ''light'')]))
     \<noteq> fst (getRequestStore 1 (render_all ''production'' server_init
           [RenderProvider 1 ''user'' (VStr ''ann''), RenderProvider 2 ''theme'' (VStr ''dark''),
            RenderProvider 1 ''user'' VNull]))
   \<and> fst (BridgeSerializer ''production'' 1 (render_all ''production'' server_init
           [RenderProvider 1 ''user'' (VStr ''ann''), RenderProvider 2 ''theme'' (VStr ''dark''),
            RenderProvider 1 ''user'' VNull]))
     = Inr (Some \<lparr>elem_id = ''__CONTEXT_BRIDGE_STORE__'', elem_type = ''application/json'',
                  inner_html = ''{\"user\":null}''\<rparr>)"
proof -
  have e: "set_all [] (provided 1 [RenderProvider 1 ''user'' (VStr ''ann''),
        RenderProvider 2 ''theme'' (VStr ''dark''), RenderProvider 1 ''user'' VNull])
      = [(''user'', VNull)]"
    by (simp add: set_all_def)
  have p: "plain_data (Object_fromEntries [(''user'', VNull)])"
    by (simp add: server_eval)
  have t: "to_json (Object_fromEntries [(''user'', VNull)]) = Text (JObj [(''user'', JNull)])"
    by (simp add: server_eval)
  show ?thesis
    using request_scoped_store [where r = 1 and r' = 2 and node_env = "''production''"
      and renders = "[RenderProvider 1 ''user'' (VStr ''ann''),
        RenderProvider 2 ''theme'' (VStr ''dark''), RenderProvider 1 ''user'' VNull]"
      and more = "[RenderProvider 2 ''theme'' (VStr ''light'')]"] p
    unfolding e t by (simp add: quote_def quote_char_def del: plain_data.simps)
qed

text \<open>
  C7. Once the store is hydrated (the client state \<open>c\<close> after a first call of
  \<open>getHydratedStore\<close>), no hook call changes \<open>clientStore\<close>, whatever hooks are called
  and however often; a hook for \<open>bridgeId\<close> returns the same value after any number of
  other hook calls, from a newly mounted component as well as from a mounted one that
  renders again, and a render of a mounted component leaves the client as it is. When
  \<open>clientStore\<close> holds a store (\<open>held\<close>), a hook call changes nothing at all in the
  client, and its value is the same in every runtime.
\<close>

theorem hooks_leave_store_unchanged:
  fixes rt rt' :: runtime and start held later :: client and hooks :: "(string \<times> jsval) list"
    and bridgeId :: string and defaultValue :: jsval
  defines "c \<equiv> snd (getHydratedStore rt start)"
  defines "first \<equiv> createBridgeHook bridgeId defaultValue rt None c"
  shows "clientStore (hook_calls rt c hooks) = clientStore c
    \<and> fst (createBridgeHook bridgeId defaultValue rt None (hook_calls rt c hooks)) = fst first
    \<and> createBridgeHook bridgeId defaultValue rt (fst (snd first)) later = (fst first, fst (snd first), later)
    \<and> (truthy (clientStore held) \<longrightarrow>
         snd (snd (createBridgeHook bridgeId defaultValue rt None held)) = held
         \<and> fst (createBridgeHook bridgeId defaultValue rt' None held)
             = fst (createBridgeHook bridgeId defaultValue rt None held))"
proof -
  have store: "clientStore (hook_calls rt c hooks) = clientStore c"
    unfolding c_def by (rule hook_calls_store) simp
  then have again: "fst (createBridgeHook bridgeId defaultValue rt None (hook_calls rt c hooks)) = fst first"
    unfolding first_def by (rule hook_mount_depends)
  obtain x where x: "get_property (fst (getHydratedStore rt c)) bridgeId = Inr x"
    and f: "first = (Inr (if x \<noteq> VUndefined then x else defaultValue),
          Some (fst (getHydratedStore rt c)), snd (getHydratedStore rt c))"
    using hook_mount [of rt c bridgeId defaultValue] unfolding first_def by blast
  have rerender: "createBridgeHook bridgeId defaultValue rt (fst (snd first)) later
      = (fst first, fst (snd first), later)"
    by (simp add: f hook_rerender x)
  have cached: "snd (snd (createBridgeHook bridgeId defaultValue rt None held)) = held
         \<and> fst (createBridgeHook bridgeId defaultValue rt' None held)
             = fst (createBridgeHook bridgeId defaultValue rt None held)"
    if "truthy (clientStore held)"
    using hook_mount [of rt held bridgeId defaultValue] hook_mount [of rt' held bridgeId defaultValue]
      hydration_cached [OF that, of rt] hydration_cached [OF that, of rt']
    by auto
  from store again rerender cached show ?thesis by simp
qed

theorem hooks_leave_store_unchanged_witness:
  "snd (snd (createBridgeHook ''user'' (VStr ''guest'') NoWindow None
               \<lparr>clientStore = JObj [(''user'', JStr ''ann'')], calls = []\<rparr>))
     = \<lparr>clientStore = JObj [(''user'', JStr ''ann'')], calls = []\<rparr>
   \<and> fst (createBridgeHook ''user'' (VStr ''guest'') (Window Map.empty) None
            \<lparr>clientStore = JObj [(''user'', JStr ''ann'')], calls = []\<rparr>)
       = fst (createBridgeHook ''user'' (VStr ''guest'') NoWindow None
                \<lparr>clientStore = JObj [(''user'', JStr ''ann'')], calls = []\<rparr>)"
  using hooks_leave_store_unchanged [where rt = NoWindow and rt' = "Window Map.empty"
      and held = "\<lparr>clientStore = JObj [(''user'', JStr ''ann'')], calls = []\<rparr>"
      and bridgeId = "''user''" and defaultValue = "VStr ''guest''" and hooks = "[]"
      and start = client_init and later = client_init]
  by simp

text \<open>
  C8. In production the store holds \<open>null\<close> for the identifier \<open>auth\<close> and a cyclic object
  for another identifier: the serializer renders nothing, the page has no script element,
  and the hook for \<open>auth\<close> returns its default value, not \<open>null\<close>.
\<close>

theorem stored_null_lost_with_failed_serialization:
  "map_of (request_store 0 (render_all ''production'' server_init
             [RenderProvider 0 ''auth'' VNull, RenderProvider 0 ''self'' VCyclic])) ''auth''
     = Some VNull
   \<and> fst (BridgeSerializer ''production'' 0
            (render_all ''production'' server_init
               [RenderProvider 0 ''auth'' VNull, RenderProvider 0 ''self'' VCyclic]))
       = Inr None
   \<and> fst (createBridgeHook ''auth'' (VStr ''guest'')
            (Window (load_page None ''</body></html>'')) None client_init)
       = Inr (VStr ''guest'')"
  by (simp add: server_eval page_eval client_eval)

text \<open>
  C8, amended. If the request store holds \<open>null\<close> for an identifier when
  \<open>BridgeSerializer\<close> renders, the store is plain data (safe integers, no function under
  the name \<open>toJSON\<close>), the serializer renders its script element, and the text of that
  element reaches a browser that has not hydrated yet as it was written, then the hook for
  the identifier returns \<open>null\<close> and not its default value. In every client state, and
  in every runtime whose blob is missing, is read in full by the parser or is not a JSON
  text, a newly mounted hook returns its default value only when the lookup of its
  identifier in the hydrated store gives \<open>undefined\<close>; any other value, \<open>null\<close>
  included, is returned.
\<close>

theorem null_is_present:
  fixes node_env :: string and renders :: "component list" and r :: request
    and bridgeId :: string and defaultValue :: jsval and c :: client
  defines "s \<equiv> render_all node_env server_init renders"
  assumes stored: "map_of (request_store r s) bridgeId = Some VNull"
    and plain: "plain_data (Object_fromEntries (request_store r s))"
    and rendered: "fst (BridgeSerializer node_env r s) = Inr (Some el)"
    and delivered: "page ''__CONTEXT_BRIDGE_STORE__'' = Some (inner_html el)"
    and fresh: "\<not> truthy (clientStore c)"
  shows "fst (createBridgeHook bridgeId defaultValue (Window page) None c) = Inr VNull
    \<and> (hydration_exact rt \<and> get_property (fst (getHydratedStore rt c')) b = Inr x \<longrightarrow>
         fst (createBridgeHook b d rt None c') = Inr (if x = VUndefined then d else x))"
proof -
  let ?store = "request_store r s"
  have dist: "distinct (map fst ?store)"
    unfolding s_def by (rule reachable_store_distinct)
  have ne: "?store \<noteq> []" using stored by auto
  obtain doc where doc: "to_json (Object_fromEntries ?store) = Text doc"
    and html: "inner_html el = render doc"
    using rendered ne
    by (auto simp: Serializer_result JSON_stringify_def Object_fromEntries_def
        simp del: plain_data.simps split: outcome.splits if_splits)
  have safe: "safe_json doc" using plain doc by (rule to_json_safe)
  have t: "truthy (canon doc)" using dist doc plain by (rule hydrated_lookup(2))
  have "get_property (canon doc) bridgeId = Inr VNull"
    using hydrated_lookup(3) [OF dist doc plain, of bridgeId] by (simp add: stored)
  moreover have "fst (getHydratedStore (Window page) c) = canon doc"
    using fresh delivered t safe unfolding html by (rule hydrate_written)
  ultimately have one: "fst (createBridgeHook bridgeId defaultValue (Window page) None c) = Inr VNull"
    using hook_mount [of "Window page" c bridgeId defaultValue] by auto
  have two: "fst (createBridgeHook b d rt None c') = Inr (if x = VUndefined then d else x)"
    if "get_property (fst (getHydratedStore rt c')) b = Inr x"
    using that hook_mount [of rt c' b d] by auto
  from one two show ?thesis by simp
qed

theorem null_is_present_witness:
  "fst (createBridgeHook ''auth'' (VStr ''guest'')
         (Window (load_page (Some \<lparr>elem_id = ''__CONTEXT_BRIDGE_STORE__'',
                                     elem_type = ''application/json'',
                                     inner_html = ''{\"auth\":null}''\<rparr>) ''</body></html>''))
         None client_init)
     = Inr VNull
   \<and> fst (createBridgeHook ''auth'' (VStr ''guest'') (Window Map.empty) None client_init)
       = Inr (VStr ''guest'')"
proof -
  let ?renders = "[RenderProvider 0 ''auth'' VNull]"
  let ?el = "\<lparr>elem_id = ''__CONTEXT_BRIDGE_STORE__'', elem_type = ''application/json'',
              inner_html = ''{\"auth\":null}''\<rparr>"
  have st: "request_store 0 (render_all ''production'' server_init ?renders) = [(''auth'', VNull)]"
    by (simp add: server_eval)
  have a: "map_of (request_store 0 (render_all ''production'' server_init ?renders)) ''auth''
      = Some VNull"
    by (simp add: st)
  have p: "plain_data (Object_fromEntries (request_store 0 (render_all ''production'' server_init ?renders)))"
    unfolding st by (simp add: server_eval)
  have b: "fst (BridgeSerializer ''production'' 0 (render_all ''production'' server_init ?renders))
      = Inr (Some ?el)"
    by (simp add: server_eval)
  have c: "load_page (Some ?el) ''</body></html>'' ''__CONTEXT_BRIDGE_STORE__''
      = Some (inner_html ?el)"
    by (simp add: page_eval)
  have d: "\<not> truthy (clientStore client_init)" by (simp add: client_init_def)
  have e: "get_property (fst (getHydratedStore (Window Map.empty) client_init)) ''auth''
      = Inr VUndefined"
    by (simp add: client_eval)
  have h: "hydration_exact (Window Map.empty)" by (simp add: hydration_exact_def)
  from null_is_present [where page = "load_page (Some ?el) ''</body></html>''"
      and defaultValue = "VStr ''guest''" and rt = "Window Map.empty" and c' = client_init
      and b = "''auth''" and x = VUndefined and d = "VStr ''guest''", OF a p b c d] e h
  show ?thesis by simp
qed

text \<open>
  C9. Two Providers with the identifier \<open>user\<close> in one request, the last one given
  \<open>undefined\<close>: the serialized blob is \<open>{}\<close>, which has no entry for the identifier.
\<close>

theorem last_undefined_leaves_no_entry:
  "fst (BridgeSerializer ''production'' 0
         (render_all ''production'' server_init
            [RenderProvider 0 ''user'' (VStr ''ann''), RenderProvider 0 ''user'' VUndefined]))
     = Inr (Some \<lparr>elem_id = ''__CONTEXT_BRIDGE_STORE__'', elem_type = ''application/json'',
                  inner_html = ''{}''\<rparr>)"
  by (simp add: server_eval)

text \<open>
  C9, amended. Let the Provider with identifier \<open>bridgeId\<close> that ran last in request \<open>r\<close>
  have been given \<open>v\<close>. Then the request store has exactly one entry for \<open>bridgeId\<close>, and
  it holds \<open>v\<close>. If the store is plain data (safe integers, no function under the name
  \<open>toJSON\<close>) and no stored value makes \<open>JSON.stringify\<close> throw, the blob is a JSON
  object that has exactly one member for \<open>bridgeId\<close>, the JSON form of \<open>v\<close>, when \<open>v\<close> has
  one, and no member for \<open>bridgeId\<close> when \<open>v\<close> is \<open>undefined\<close>, a function or a symbol.
\<close>

theorem last_write_wins:
  fixes node_env :: string and before after :: "component list" and r :: request
    and bridgeId :: string and v :: jsval
  defines "s \<equiv> render_all node_env server_init (before @ RenderProvider r bridgeId v # after)"
  defines "store \<equiv> request_store r s"
  assumes last: "bridgeId \<notin> fst ` set (provided r after)"
  shows "map_of store bridgeId = Some v
    \<and> length (filter (\<lambda>e. fst e = bridgeId) store) = 1
    \<and> (plain_data (Object_fromEntries store)
         \<and> \<not> list_ex (\<lambda>e. to_json (snd e) = Throws) store \<longrightarrow>
         (\<exists>ms. fst (BridgeSerializer node_env r s) =
                  Inr (Some \<lparr>elem_id = ''__CONTEXT_BRIDGE_STORE__'',
                             elem_type = ''application/json'',
                             inner_html = render (JObj ms)\<rparr>)
              \<and> (case to_json v of
                    Text j \<Rightarrow>
                      length (filter (\<lambda>m. fst m = bridgeId) ms) = 1 \<and> map_of ms bridgeId = Some j
                  | _ \<Rightarrow> filter (\<lambda>m. fst m = bridgeId) ms = [])))"
proof -
  have d: "distinct (map fst store)"
    unfolding store_def s_def by (rule reachable_store_distinct)
  have "map_of store = map_of (rev (provided r (before @ RenderProvider r bridgeId v # after)))"
    unfolding store_def s_def by (rule reachable_store_last)
  then have look: "map_of store bridgeId = Some v"
    using last_provided [OF refl last] by simp
  then have one: "length (filter (\<lambda>e. fst e = bridgeId) store) = 1"
    using count_key [OF d, of bridgeId] by simp
  have ne: "store \<noteq> []" using look by auto
  have blob: "\<exists>ms. fst (BridgeSerializer node_env r s) =
                  Inr (Some \<lparr>elem_id = ''__CONTEXT_BRIDGE_STORE__'',
                             elem_type = ''application/json'',
                             inner_html = render (JObj ms)\<rparr>)
              \<and> (case to_json v of
                    Text j \<Rightarrow>
                      length (filter (\<lambda>m. fst m = bridgeId) ms) = 1 \<and> map_of ms bridgeId = Some j
                  | _ \<Rightarrow> filter (\<lambda>m. fst m = bridgeId) ms = [])"
    if nt: "\<not> list_ex (\<lambda>e. to_json (snd e) = Throws) store"
  proof -
    from store_document [OF d nt] obtain ms where
      ms: "to_json (Object_fromEntries store) = Text (JObj ms)" and dm: "distinct (map fst ms)"
      and lm: "\<And>k. map_of ms k = (case map_of store k of
                               None \<Rightarrow> None
                             | Some v \<Rightarrow> (case to_json v of Text j \<Rightarrow> Some j | _ \<Rightarrow> None))"
      by blast
    have el: "fst (BridgeSerializer node_env r s) =
            Inr (Some \<lparr>elem_id = ''__CONTEXT_BRIDGE_STORE__'',
                       elem_type = ''application/json'',
                       inner_html = render (JObj ms)\<rparr>)"
      using ne ms unfolding store_def by (simp add: Serializer_result JSON_stringify_def)
    have cnt: "length (filter (\<lambda>m. fst m = bridgeId) ms)
        = (case map_of ms bridgeId of None \<Rightarrow> 0 | Some j \<Rightarrow> 1)"
      using dm by (rule count_key)
    have "case to_json v of
            Text j \<Rightarrow>
              length (filter (\<lambda>m. fst m = bridgeId) ms) = 1 \<and> map_of ms bridgeId = Some j
          | _ \<Rightarrow> filter (\<lambda>m. fst m = bridgeId) ms = []"
      using cnt by (simp add: lm look split: outcome.splits)
    with el show ?thesis by blast
  qed
  from look one blob show ?thesis by blast
qed

theorem last_write_wins_witness:
  "map_of (request_store 0 (render_all ''production'' server_init
       [RenderProvider 0 ''user'' (VStr ''ann''), RenderProvider 0 ''user'' (VStr ''bob'')]))
     ''user'' = Some (VStr ''bob'')
   \<and> (\<exists>ms. fst (BridgeSerializer ''production'' 0
                 (render_all ''production'' server_init
                    [RenderProvider 0 ''user'' (VStr ''ann''), RenderProvider 0 ''user'' (VStr ''bob'')]))
             = Inr (Some \<lparr>elem_id = ''__CONTEXT_BRIDGE_STORE__'', elem_type = ''application/json'',
                          inner_html = render (JObj ms)\<rparr>)
           \<and> length (filter (\<lambda>m. fst m = ''user'') ms) = 1
           \<and> map_of ms ''user'' = Some (JStr ''bob''))"
proof -
  have st: "request_store 0 (render_all ''production'' server_init
       [RenderProvider 0 ''user'' (VStr ''ann''), RenderProvider 0 ''user'' (VStr ''bob'')])
     = [(''user'', VStr ''bob'')]"
    by (simp add: server_eval)
  have p: "plain_data (Object_fromEntries [(''user'', VStr ''bob'')])"
    by (simp add: server_eval)
  show ?thesis
    using last_write_wins [where node_env = "''production''" and r = 0 and bridgeId = "''user''"
        and before = "[RenderProvider 0 ''user'' (VStr ''ann'')]" and v = "VStr ''bob''"
        and after = "[]"] p
    by (simp add: st del: render.simps plain_data.simps)
qed

text \<open>
  C10. Without a \<open>window\<close> the store is an empty object and the client state is left as
  it was, but the hook for the identifier \<open>constructor\<close> returns the inherited
  constructor instead of its default value.
\<close>

theorem server_pass_inherited_name:
  "getHydratedStore NoWindow client_init = (JObj [], client_init)
   \<and> fst (createBridgeHook ''constructor'' (VStr ''fallback'') NoWindow None client_init)
       = Inr (VFunction ''Object.prototype.constructor'')"
  by (simp add: client_eval)

end
